theory Spec2Isabelle
  imports Main
begin

section \<open>Data model\<close>

text \<open>
  The library works on plain JavaScript objects. The parts of them that the verified
  functions read are collected in two records: \<open>maps\<close> (the layout produced by the planner:
  \<open>maps.values\<close>, \<open>maps.textures\<close>, \<open>maps.passes\<close>, \<open>maps.samples\<close>, \<open>maps.reads\<close>,
  \<open>maps.channelsMin\<close>) and \<open>state\<close> (the \<open>gpgpu\<close> state). An optional property is an
  \<open>option\<close>, \<open>None\<close> standing for \<open>undefined\<close>. Widths, indexes and counts are natural
  numbers; \<open>stepNow\<close> is an integer. A hole of the sparse array \<open>maps.reads[p]\<close> is \<open>None\<close>.
\<close>

text \<open>
  The \<open>macros\<close> property of a state (see \<open>hasMacros\<close>): nullish or \<open>true\<close>, another falsy
  value, a string, a hook function, an object of nested hooks, or any other truthy value.
  A hook function is called as \<open>macros(props, key, on, macros)\<close>; it is modelled as a pure
  function of \<open>key\<close> and \<open>on\<close> (for the \<open>props\<close> it is installed in) that returns a string or
  \<open>null\<close>. An object is the list of its own properties, none of them \<open>undefined\<close>.
\<close>

datatype macros =
    MNullish
  | MTrue
  | MFalsy
  | MString string
  | MFunction "string \<Rightarrow> string \<Rightarrow> string option"
  | MObject "(string \<times> macros) list"
  | MOther

record maps =
  values_m :: "nat list"
  textures :: "nat list list"
  passes :: "nat list list"
  samples :: "(nat \<times> nat) list list option"
  reads :: "nat list option list list option"
  channelsMin :: "nat option"

record state =
  maps :: maps
  steps :: nat
  bound :: "nat option"
  size_count :: "nat option"
  pre :: "string option"
  passNow :: "nat option"
  stepNow :: "int option"
  merge :: bool
  glsl :: "nat option"
  macros :: macros

section \<open>The step runner: \<open>getStep\<close>, \<open>to.run\<close> (step.js)\<close>

text \<open>
  \<open>to.run\<close> calls the draw command \<open>step.pass\<close> and the merge update \<open>merge.update\<close>; both are
  effects of the GL API, recorded here as events carrying the props they were called with.
  The hooks \<open>step.onStep\<close> and \<open>step.onPass\<close> are optional; a hook returns \<open>None\<close> for a
  nullish result (the props it was given stay in use) or a props object of its own.
  \<open>mergeUpdate\<close> tells whether \<open>props.merge?.update\<close> is defined.
\<close>

datatype event = Draw state | MergeUpdate state

record step_hooks =
  onStep :: "(state \<Rightarrow> state option) option"
  onPass :: "(state \<Rightarrow> nat list \<Rightarrow> state option) option"
  mergeUpdate :: bool

text \<open>\<open>props.stepNow = (props.stepNow+1 || 0)\<close>: \<open>undefined+1\<close> is \<open>NaN\<close>, which is falsy.\<close>

definition stepNext :: "int option \<Rightarrow> int" where
  "stepNext s = (case s of None \<Rightarrow> 0 | Some n \<Rightarrow> (if n + 1 = 0 then 0 else n + 1))"

text \<open>\<open>onStep?.(props, wrapGet(stepNow, steps)) ?? props\<close>\<close>

definition stepPropsOf :: "step_hooks \<Rightarrow> state \<Rightarrow> state" where
  "stepPropsOf h props =
    (case onStep h of
      None \<Rightarrow> props
    | Some f \<Rightarrow> (case f props of None \<Rightarrow> props | Some sp \<Rightarrow> sp))"

text \<open>\<open>onPass?.(stepProps, p) ?? stepProps\<close>\<close>

definition passPropsOf :: "step_hooks \<Rightarrow> state \<Rightarrow> nat list \<Rightarrow> state" where
  "passPropsOf h stepProps p =
    (case onPass h of
      None \<Rightarrow> stepProps
    | Some f \<Rightarrow> (case f stepProps p of None \<Rightarrow> stepProps | Some pp \<Rightarrow> pp))"

text \<open>
  The body of \<open>each((p, i) => {...}, stepProps.maps.passes)\<close>: \<open>stepProps.passNow = i\<close> is a
  mutation of \<open>stepProps\<close> that later iterations see; the events are appended in call order.
\<close>

fun run_passes ::
  "step_hooks \<Rightarrow> state \<Rightarrow> nat \<Rightarrow> nat list list \<Rightarrow> event list \<Rightarrow> state \<times> event list" where
  "run_passes h stepProps i [] evs = (stepProps, evs)"
| "run_passes h stepProps i (p # ps) evs =
    (let stepProps' = stepProps\<lparr>passNow := Some i\<rparr>;
         passProps = passPropsOf h stepProps' p;
         evs' = evs @ [Draw passProps] @ (if mergeUpdate h then [MergeUpdate passProps] else [])
     in run_passes h stepProps' (Suc i) ps evs')"

text \<open>
  \<open>to.run\<close> returns \<open>props\<close>. When \<open>onStep\<close> gives no props of its own, \<open>stepProps\<close> is \<open>props\<close>
  itself and the writes to \<open>passNow\<close> are writes to \<open>props\<close>; otherwise they go to the hook's
  object and \<open>props\<close> only has its \<open>stepNow\<close> changed.
\<close>

definition run :: "step_hooks \<Rightarrow> state \<Rightarrow> state \<times> event list" where
  "run h props =
    (let props' = props\<lparr>stepNow := Some (stepNext (stepNow props))\<rparr> in
     case (case onStep h of None \<Rightarrow> None | Some f \<Rightarrow> f props') of
       None \<Rightarrow> run_passes h props' 0 (passes (maps props')) []
     | Some sp \<Rightarrow> (props', snd (run_passes h sp 0 (passes (maps sp)) [])))"

text \<open>The props of the draw calls of a run, in call order.\<close>

fun draws :: "event list \<Rightarrow> state list" where
  "draws [] = []"
| "draws (Draw s # evs) = s # draws evs"
| "draws (MergeUpdate s # evs) = draws evs"

text \<open>
  An example from the documentation of \<open>macroValues\<close>: the values \<open>[2, 4, 1]\<close> packed into
  the textures \<open>[[1], [0, 2]]\<close>, one texture per pass; two steps, nothing else set.
\<close>

definition exMaps :: maps where
  "exMaps = \<lparr>values_m = [2, 4, 1], textures = [[1], [0, 2]], passes = [[0], [1]],
     samples = None, reads = None, channelsMin = None\<rparr>"

definition exState :: state where
  "exState = \<lparr>maps = exMaps, steps = 2, bound = None, size_count = None, pre = None,
     passNow = None, stepNow = None, merge = True, glsl = None, macros = MNullish\<rparr>"

definition noHooks :: step_hooks where
  "noHooks = \<lparr>onStep = None, onPass = None, mergeUpdate = False\<rparr>"

section \<open>Defaults (const.js)\<close>

definition channelsMinDef :: nat where "channelsMinDef = 4"
definition channelsMaxDef :: nat where "channelsMaxDef = 4"
definition buffersMaxDef :: nat where "buffersMaxDef = 1"
definition boundDef :: nat where "boundDef = 1"
definition stepsDef :: nat where "stepsDef = 2"
definition mergeDef :: bool where "mergeDef = True"
definition preDef :: string where "preDef = ''gpgpu_''"

section \<open>The planner (maps.js), from the specification\<close>

text \<open>
  Modelled from the spec: the planner's input and output. The module maps.js (\<open>mapGroups\<close>,
  \<open>mapSamples\<close>, \<open>mapFlow\<close>) is not among the sources, so the planner follows sections 3, 4, 6
  and 7 of the specification. A derive entry is a pair (stepOffset, valueIndex), a bare
  valueIndex (stepOffset 0) or the wildcard "all values at offset k"; \<open>derives\<close> holds one
  list of entries per value, an omitted entry being the empty list. The limits are optional
  and default to \<open>channelMax = 4\<close>, \<open>channelMin = 4\<close>, \<open>attachMax = 1\<close>.
\<close>

datatype plan_error = ConfigurationError | UnsatisfiableDependencyError

datatype derive = DeriveAt nat nat | DeriveValue nat | DeriveAll nat

record limits =
  channelMax :: "nat option"
  channelMin :: "nat option"
  attachMax :: "nat option"
  packed :: bool

record plan =
  plan_values :: "nat list"
  plan_textures :: "nat list list"
  plan_channels :: "nat list"
  plan_passes :: "nat list list"
  plan_samples :: "(nat \<times> nat) list list"
  plan_reads :: "(nat \<times> nat list) list list"

text \<open>Modelled from the spec: the limits of section 6 with their defaults (maps.js is missing).\<close>

definition channelMaxOf :: "limits \<Rightarrow> nat" where
  "channelMaxOf lim = (case channelMax lim of None \<Rightarrow> channelsMaxDef | Some c \<Rightarrow> c)"

definition channelMinOf :: "limits \<Rightarrow> nat" where
  "channelMinOf lim = (case channelMin lim of None \<Rightarrow> channelsMinDef | Some c \<Rightarrow> c)"

definition attachMaxOf :: "limits \<Rightarrow> nat" where
  "attachMaxOf lim = (case attachMax lim of None \<Rightarrow> buffersMaxDef | Some a \<Rightarrow> a)"

text \<open>
  Modelled from the spec: the Channel Packer of section 4.1 (maps.js is missing). A texture
  is the list of the value indexes packed into it; its packed width is the sum of their
  widths. With \<open>packed\<close> the values are taken by descending width (a stable sort of the
  declaration order) and each is placed into the first open texture whose remaining capacity
  holds it, a new texture being opened when there is none; without \<open>packed\<close> every value
  has a texture of its own. The allocated channel count of a texture is its packed width
  raised to at least \<open>channelMin\<close>.
\<close>

definition packedWidth :: "nat list \<Rightarrow> nat list \<Rightarrow> nat" where
  "packedWidth vals tex = sum_list (map (\<lambda>v. vals ! v) tex)"

fun place :: "nat list \<Rightarrow> nat \<Rightarrow> nat list list \<Rightarrow> nat \<Rightarrow> nat list list" where
  "place vals cmax [] v = [[v]]"
| "place vals cmax (b # bs) v =
    (if packedWidth vals b + vals ! v \<le> cmax then (b @ [v]) # bs
     else b # place vals cmax bs v)"

definition pack :: "nat list \<Rightarrow> nat \<Rightarrow> bool \<Rightarrow> nat list list" where
  "pack vals cmax pk =
    (if pk then fold (\<lambda>v bins. place vals cmax bins v)
                 (sort_key (\<lambda>v. - int (vals ! v)) [0..<length vals]) []
     else map (\<lambda>v. [v]) [0..<length vals])"

definition allocated :: "nat list \<Rightarrow> nat \<Rightarrow> nat list \<Rightarrow> nat" where
  "allocated vals cmin tex = max (packedWidth vals tex) cmin"

text \<open>
  Modelled from the spec: the Pass Grouper of section 4.2 (maps.js is missing). Textures are
  accumulated into the current pass until adding the next would exceed \<open>attachMax\<close>; then a
  new pass is started. \<open>attachMax < 1\<close> is a configuration error.
\<close>

fun group_from :: "nat \<Rightarrow> nat list \<Rightarrow> nat list \<Rightarrow> nat list list" where
  "group_from amax cur [] = (if cur = [] then [] else [cur])"
| "group_from amax cur (t # ts) =
    (if amax < length cur + 1 then cur # group_from amax [t] ts
     else group_from amax (cur @ [t]) ts)"

definition group :: "nat list \<Rightarrow> nat \<Rightarrow> plan_error + nat list list" where
  "group ts amax = (if amax < 1 then Inl ConfigurationError else Inr (group_from amax [] ts))"

text \<open>
  Modelled from the spec: the Dependency Sampler of section 4.3 (maps.js is missing). The
  texture of a value is the first texture that holds it. A derive entry asks for one
  coordinate (stepOffset, texture of the value); a wildcard asks for one coordinate per
  texture that contains a value. The coordinates of a pass are those of the derive lists of
  the values of its textures, in the order textures, values and entries are met; the sample
  list keeps the first occurrence of each. The read indexes of a value are the positions in
  the sample list of the coordinates of its entries, wildcards expanded in place. A
  coordinate that cannot be resolved is an UnsatisfiableDependencyError.
\<close>

fun textureOf_from :: "nat \<Rightarrow> nat list list \<Rightarrow> nat \<Rightarrow> nat option" where
  "textureOf_from t [] v = None"
| "textureOf_from t (b # bs) v = (if v \<in> set b then Some t else textureOf_from (Suc t) bs v)"

definition textureOf :: "nat list list \<Rightarrow> nat \<Rightarrow> nat option" where
  "textureOf texs v = textureOf_from 0 texs v"

definition deriveCoords :: "nat list list \<Rightarrow> derive \<Rightarrow> (nat \<times> nat) list option" where
  "deriveCoords texs d =
    (case d of
      DeriveAt k v \<Rightarrow> map_option (\<lambda>t. [(k, t)]) (textureOf texs v)
    | DeriveValue v \<Rightarrow> map_option (\<lambda>t. [(0, t)]) (textureOf texs v)
    | DeriveAll k \<Rightarrow> Some (map (\<lambda>t. (k, t)) (filter (\<lambda>t. texs ! t \<noteq> []) [0..<length texs])))"

definition derivesOf :: "derive list list \<Rightarrow> nat \<Rightarrow> derive list" where
  "derivesOf ders v = (if v < length ders then ders ! v else [])"

definition valueCoords :: "nat list list \<Rightarrow> derive list list \<Rightarrow> nat \<Rightarrow> (nat \<times> nat) list option" where
  "valueCoords texs ders v = map_option concat (those (map (deriveCoords texs) (derivesOf ders v)))"

definition passValues :: "nat list list \<Rightarrow> nat list \<Rightarrow> nat list" where
  "passValues texs pass = concat (map (\<lambda>t. texs ! t) pass)"

fun dedupe_into :: "'a list \<Rightarrow> 'a list \<Rightarrow> 'a list" where
  "dedupe_into seen [] = seen"
| "dedupe_into seen (c # cs) = dedupe_into (if c \<in> set seen then seen else seen @ [c]) cs"

definition dedupe :: "'a list \<Rightarrow> 'a list" where
  "dedupe cs = dedupe_into [] cs"

fun first_index :: "'a list \<Rightarrow> 'a \<Rightarrow> nat" where
  "first_index [] c = 0"
| "first_index (x # xs) c = (if c = x then 0 else Suc (first_index xs c))"

definition index_in :: "'a list \<Rightarrow> 'a \<Rightarrow> nat option" where
  "index_in xs c = (if c \<in> set xs then Some (first_index xs c) else None)"

definition resolvePass ::
  "nat list list \<Rightarrow> derive list list \<Rightarrow> nat list \<Rightarrow>
     plan_error + ((nat \<times> nat) list \<times> (nat \<times> nat list) list)" where
  "resolvePass texs ders pass =
    (let vs = passValues texs pass in
     case those (map (valueCoords texs ders) vs) of
       None \<Rightarrow> Inl UnsatisfiableDependencyError
     | Some css \<Rightarrow>
         (let ss = dedupe (concat css) in
          case those (map (\<lambda>cs. those (map (index_in ss) cs)) css) of
            None \<Rightarrow> Inl UnsatisfiableDependencyError
          | Some rs \<Rightarrow> Inr (ss, zip vs rs)))"

fun resolveSamples ::
  "nat list list \<Rightarrow> derive list list \<Rightarrow> nat list list \<Rightarrow>
     plan_error + ((nat \<times> nat) list \<times> (nat \<times> nat list) list) list" where
  "resolveSamples texs ders [] = Inr []"
| "resolveSamples texs ders (pass # ps) =
    (case resolvePass texs ders pass of
      Inl e \<Rightarrow> Inl e
    | Inr r \<Rightarrow> (case resolveSamples texs ders ps of Inl e \<Rightarrow> Inl e | Inr rs \<Rightarrow> Inr (r # rs)))"

text \<open>
  Modelled from the spec: the Flow Orchestrator of section 4.4 with the configuration errors
  of section 7 (maps.js is missing): a width above \<open>channelMax\<close>, a non-positive \<open>attachMax\<close>
  or \<open>channelMax\<close>, or a derive naming a value index outside the declared range, all
  detected before anything is planned. The specification leaves the bound on a stepOffset
  open (section 9), so none is checked here.
\<close>

fun derive_ok :: "nat \<Rightarrow> derive \<Rightarrow> bool" where
  "derive_ok n (DeriveAt k v) = (v < n)"
| "derive_ok n (DeriveValue v) = (v < n)"
| "derive_ok n (DeriveAll k) = True"

definition config_ok :: "nat list \<Rightarrow> derive list list \<Rightarrow> limits \<Rightarrow> bool" where
  "config_ok vals ders lim =
    (1 \<le> channelMaxOf lim \<and> 1 \<le> attachMaxOf lim
     \<and> list_all (\<lambda>w. w \<le> channelMaxOf lim) vals
     \<and> list_all (derive_ok (length vals)) (concat ders))"

definition plan :: "nat list \<Rightarrow> derive list list \<Rightarrow> limits \<Rightarrow> plan_error + plan" where
  "plan vals ders lim =
    (if \<not> config_ok vals ders lim then Inl ConfigurationError
     else
       (let texs = pack vals (channelMaxOf lim) (packed lim) in
        case group [0..<length texs] (attachMaxOf lim) of
          Inl e \<Rightarrow> Inl e
        | Inr ps \<Rightarrow>
            (case resolveSamples texs ders ps of
              Inl e \<Rightarrow> Inl e
            | Inr srs \<Rightarrow>
                Inr \<lparr>plan_values = vals, plan_textures = texs,
                     plan_channels = map (allocated vals (channelMinOf lim)) texs,
                     plan_passes = ps, plan_samples = map fst srs, plan_reads = map snd srs\<rparr>)))"

section \<open>The entry point \<open>gpgpu\<close> (index.js)\<close>

text \<open>
  \<open>gpgpu(api, state)\<close> reads \<open>maxDrawbuffers\<close> from \<open>api.limits ?? api\<close> and \<open>buffersMax\<close> from
  \<open>state.maps\<close>, sets \<open>maps.buffersMax = (buffersMax ?? maxDrawbuffers)\<close> and calls
  \<open>mapFlow(maps, ...)\<close>. The limit that planning receives:
\<close>

definition gpgpu_buffersMax :: "nat option \<Rightarrow> nat option \<Rightarrow> nat option" where
  "gpgpu_buffersMax maxDrawbuffers buffersMax =
    (case buffersMax of None \<Rightarrow> maxDrawbuffers | Some b \<Rightarrow> Some b)"

text \<open>
  The planning call of \<open>gpgpu\<close>: the caller's maps with \<open>buffersMax\<close> replaced as above, given
  to the planner (\<open>mapFlow\<close>, modelled above from the specification).
\<close>

definition gpgpu_plan ::
  "nat option \<Rightarrow> nat list \<Rightarrow> derive list list \<Rightarrow> limits \<Rightarrow> plan_error + plan" where
  "gpgpu_plan maxDrawbuffers vals ders lim =
    plan vals ders (lim\<lparr>attachMax := gpgpu_buffersMax maxDrawbuffers (attachMax lim)\<rparr>)"

text \<open>
  The coordinates a value asks for (none when they cannot be resolved) and the coordinates of
  a pass in the order they are met, as used by \<open>resolvePass\<close>.
\<close>

definition coordsOf :: "nat list list \<Rightarrow> derive list list \<Rightarrow> nat \<Rightarrow> (nat \<times> nat) list" where
  "coordsOf texs ders v = (case valueCoords texs ders v of None \<Rightarrow> [] | Some cs \<Rightarrow> cs)"

definition passCoords :: "nat list list \<Rightarrow> derive list list \<Rightarrow> nat list \<Rightarrow> (nat \<times> nat) list" where
  "passCoords texs ders pass = concat (map (coordsOf texs ders) (passValues texs pass))"

text \<open>
  Examples: the values, derives and limits of the documentation of \<open>macroSamples\<close>
  (\<open>values = [2, 4, 1]\<close>, \<open>derives = [2, , [[1, 0], true]]\<close>, four attachments, packed), the
  plan they give, and limits with everything left to the defaults.
\<close>

definition exValues :: "nat list" where
  "exValues = [2, 4, 1]"

definition exDerives :: "derive list list" where
  "exDerives = [[DeriveValue 2], [], [DeriveAt 1 0, DeriveAll 0]]"

definition exLimits :: limits where
  "exLimits = \<lparr>channelMax = Some 4, channelMin = None, attachMax = Some 4, packed = True\<rparr>"

definition exPlan :: plan where
  "exPlan = \<lparr>plan_values = [2, 4, 1], plan_textures = [[1], [0, 2]], plan_channels = [4, 4],
     plan_passes = [[0, 1]], plan_samples = [[(0, 1), (1, 1), (0, 0)]],
     plan_reads = [[(1, []), (0, [0]), (2, [1, 2, 0])]]\<rparr>"

definition defLimits :: limits where
  "defLimits = \<lparr>channelMax = None, channelMin = None, attachMax = None, packed = True\<rparr>"

section \<open>The state and its GL resources: \<open>getState\<close> (state.js)\<close>

text \<open>
  A JavaScript number that may be \<open>NaN\<close> is a \<open>nat option\<close>, \<open>None\<close> being \<open>NaN\<close>: reading a
  list out of range gives \<open>undefined\<close>, \<open>n + undefined\<close> is \<open>NaN\<close>, and \<open>Math.max\<close> of anything
  with \<open>NaN\<close> is \<open>NaN\<close>. The lists are reduced with \<open>reduce\<close> of the package
  \<open>@epok.tech/fn-lists\<close>, which applies the array's own \<open>reduce\<close>; reducing \<open>undefined\<close>
  (a texture index out of range of \<open>maps.textures\<close>) throws a TypeError.
\<close>

datatype js_error = TypeError

type_synonym jsnum = "nat option"

definition nth_opt :: "'a list \<Rightarrow> nat \<Rightarrow> 'a option" where
  "nth_opt xs i = (if i < length xs then Some (xs ! i) else None)"

definition js_add :: "jsnum \<Rightarrow> jsnum \<Rightarrow> jsnum" where
  "js_add a b = (case a of None \<Rightarrow> None | Some x \<Rightarrow> (case b of None \<Rightarrow> None | Some y \<Rightarrow> Some (x + y)))"

definition js_max :: "jsnum \<Rightarrow> jsnum \<Rightarrow> jsnum" where
  "js_max a b = (case a of None \<Rightarrow> None | Some x \<Rightarrow> (case b of None \<Rightarrow> None | Some y \<Rightarrow> Some (max x y)))"

text \<open>\<open>reduce((sum, v) => sum+values[v], texturesMap[t], 0)\<close>\<close>

definition textureWidth :: "nat list \<Rightarrow> nat list \<Rightarrow> jsnum" where
  "textureWidth vals tex = fold (\<lambda>v sum. js_add sum (nth_opt vals v)) tex (Some 0)"

text \<open>
  \<open>passChannels(pass, min) = reduce((min, t) => Math.max(min, ...), pass, min)\<close>
\<close>

fun passChannels :: "maps \<Rightarrow> nat list \<Rightarrow> jsnum \<Rightarrow> js_error + jsnum" where
  "passChannels m [] mn = Inr mn"
| "passChannels m (t # ts) mn =
    (case nth_opt (textures m) t of
      None \<Rightarrow> Inl TypeError
    | Some tex \<Rightarrow> passChannels m ts (js_max mn (textureWidth (values_m m) tex)))"

text \<open>
  \<open>mergeChannels = ((!merge)? null : reduce((min, p) => passChannels(p, min), maps.passes,
  channelsMin))\<close>; the result \<open>None\<close> is \<open>null\<close>.
\<close>

fun mergeChannelsFrom :: "maps \<Rightarrow> nat list list \<Rightarrow> jsnum \<Rightarrow> js_error + jsnum" where
  "mergeChannelsFrom m [] mn = Inr mn"
| "mergeChannelsFrom m (p # ps) mn =
    (case passChannels m p mn of
      Inl e \<Rightarrow> Inl e
    | Inr mn' \<Rightarrow> mergeChannelsFrom m ps mn')"

definition mergeChannels :: "bool \<Rightarrow> maps \<Rightarrow> nat \<Rightarrow> js_error + jsnum option" where
  "mergeChannels mrg m cmin =
    (if \<not> mrg then Inr None
     else (case mergeChannelsFrom m (passes m) (Some cmin) of
             Inl e \<Rightarrow> Inl e
           | Inr c \<Rightarrow> Inr (Some c)))"

text \<open>
  The objects \<open>getState\<close> builds. \<open>tex_info\<close> is the object \<open>to\<close> of \<open>addTexture\<close> for a texture
  of the step/pass flow, stored at \<open>to.textures[step][index]\<close>; \<open>pass_info\<close> the object \<open>to\<close>
  of \<open>addPass\<close>, stored at \<open>to.passes[step][index]\<close>, with its \<open>color\<close> array as it is when
  the framebuffer is made; \<open>merge_info\<close> the object of the merged texture (\<open>to.merge.all\<close>).
  A texture made by \<open>api.texture\<close> is identified by its number in the order of creation;
  \<open>created\<close> lists the \<open>channels\<close> each was made with. \<open>gl\<close> holds what \<open>getState\<close> mutates:
  the counters of \<open>to.size\<close>, \<open>to.textures\<close>, \<open>to.passes\<close>, the pool \<open>colorPool\<close> and
  \<open>to.merge.all\<close>.
\<close>

record tex_info =
  t_channels :: jsnum
  t_texture :: "nat option"
  t_entry :: nat
  t_step :: nat
  t_pass :: nat
  t_index :: nat
  t_color :: nat
  t_map :: "nat list option"

record pass_info =
  p_color :: "nat option list"
  p_entry :: nat
  p_map :: "nat list"
  p_pass :: nat
  p_step :: nat
  p_index :: nat

record merge_info =
  m_channels :: jsnum
  m_texture :: "nat option"
  m_entry :: nat

record gl =
  size_textures :: nat
  size_colors :: nat
  size_framebuffers :: nat
  size_passes :: nat
  created :: "jsnum list"
  to_textures :: "nat \<times> nat \<Rightarrow> tex_info option"
  to_passes :: "nat \<times> nat \<Rightarrow> pass_info option"
  colorPool :: "nat option list option"
  to_merge_all :: "merge_info option"

definition gl_init :: gl where
  "gl_init = \<lparr>size_textures = 0, size_colors = 0, size_framebuffers = 0, size_passes = 0,
     created = [], to_textures = (\<lambda>k. None), to_passes = (\<lambda>k. None), colorPool = None,
     to_merge_all = None\<rparr>"

text \<open>The array write \<open>out[c] = t\<close>; a write past the end leaves holes, which read \<open>undefined\<close>.\<close>

definition js_set :: "'a option list \<Rightarrow> nat \<Rightarrow> 'a option \<Rightarrow> 'a option list" where
  "js_set xs c t =
    (if c < length xs then xs[c := t] else xs @ replicate (c - length xs) None @ [t])"

text \<open>
  \<open>addTexture(channels, w, h, step, pass)(index, c, _, color)\<close> for a texture of the flow
  (\<open>step\<close>, \<open>pass\<close> and \<open>index\<close> integers). \<open>color\<close> is the array that \<open>map\<close> of
  \<open>@epok.tech/fn-lists\<close> writes the results to, handed to the callback as its fourth argument;
  the function returns \<open>to.texture\<close>, which \<open>map\<close> stores at \<open>color[c]\<close>. \<open>api_texture\<close> tells
  whether \<open>api.texture\<close> is given (\<open>texture?.(to)\<close> is \<open>undefined\<close> otherwise).
\<close>

definition addTexture ::
  "bool \<Rightarrow> maps \<Rightarrow> jsnum \<Rightarrow> nat \<Rightarrow> nat \<Rightarrow> nat \<Rightarrow> nat \<Rightarrow> gl \<times> nat option list \<Rightarrow>
     gl \<times> nat option list" where
  "addTexture api_texture m channels step pass index c s =
    (let g = fst s; color = snd s;
         t0 = (case nth_opt color c of None \<Rightarrow> None | Some t \<Rightarrow> t);
         t = (case t0 of
               Some h \<Rightarrow> Some h
             | None \<Rightarrow> (if api_texture then Some (length (created g)) else None));
         entry = (case t0 of Some h \<Rightarrow> c | None \<Rightarrow> size_textures g);
         g1 = (case t0 of
               Some h \<Rightarrow> g
             | None \<Rightarrow> g\<lparr>size_textures := Suc (size_textures g),
                         created := (if api_texture then created g @ [channels] else created g)\<rparr>);
         to = \<lparr>t_channels = channels, t_texture = t, t_entry = entry, t_step = step,
                t_pass = pass, t_index = index, t_color = size_colors g1,
                t_map = nth_opt (textures m) index\<rparr>;
         g2 = g1\<lparr>size_colors := Suc (size_colors g1),
                 to_textures := (to_textures g1)((step, index) \<mapsto> to)\<rparr>
     in (g2, js_set color c t))"

text \<open>\<open>map(addTexture(channels, width, height, step, index), pass, out)\<close>, from position \<open>c\<close> on.\<close>

fun addTextures ::
  "bool \<Rightarrow> maps \<Rightarrow> jsnum \<Rightarrow> nat \<Rightarrow> nat \<Rightarrow> nat \<Rightarrow> nat list \<Rightarrow> gl \<times> nat option list \<Rightarrow>
     gl \<times> nat option list" where
  "addTextures api_texture m channels step pass c [] s = s"
| "addTextures api_texture m channels step pass c (index # rest) s =
    addTextures api_texture m channels step pass (Suc c) rest
      (addTexture api_texture m channels step pass index c s)"

text \<open>
  \<open>addPass(step)(pass, index)\<close> for a pass of the flow: the channels are
  \<open>mergeChannels ?? passChannels(pass, channelsMin)\<close>, the color attachments are mapped into
  the pool \<open>(colorPool ??= [])\<close> when merging and into a new array otherwise.
\<close>

definition addPass ::
  "bool \<Rightarrow> bool \<Rightarrow> maps \<Rightarrow> jsnum option \<Rightarrow> nat \<Rightarrow> nat \<Rightarrow> nat list \<Rightarrow> nat \<Rightarrow> gl \<Rightarrow> js_error + gl" where
  "addPass api_texture mrg m mc cmin step pass index g =
    (case (case mc of Some ch \<Rightarrow> Inr ch | None \<Rightarrow> passChannels m pass (Some cmin)) of
      Inl e \<Rightarrow> Inl e
    | Inr channels \<Rightarrow>
        (let out = (if mrg then (case colorPool g of None \<Rightarrow> [] | Some cp \<Rightarrow> cp) else []);
             r = addTextures api_texture m channels step index 0 pass (g, out);
             g1 = (if mrg then (fst r)\<lparr>colorPool := Some (snd r)\<rparr> else fst r);
             to = \<lparr>p_color = snd r, p_entry = size_framebuffers g1, p_map = pass,
                    p_pass = size_passes g1, p_step = step, p_index = index\<rparr>
         in Inr (g1\<lparr>size_framebuffers := Suc (size_framebuffers g1),
                     size_passes := Suc (size_passes g1),
                     to_passes := (to_passes g1)((step, index) \<mapsto> to)\<rparr>)))"

text \<open>\<open>map(addPass(step), maps.passes)\<close>, from pass \<open>index\<close> on.\<close>

fun addPasses ::
  "bool \<Rightarrow> bool \<Rightarrow> maps \<Rightarrow> jsnum option \<Rightarrow> nat \<Rightarrow> nat \<Rightarrow> nat \<Rightarrow> nat list list \<Rightarrow> gl \<Rightarrow>
     js_error + gl" where
  "addPasses api_texture mrg m mc cmin step index [] g = Inr g"
| "addPasses api_texture mrg m mc cmin step index (pass # ps) g =
    (case addPass api_texture mrg m mc cmin step pass index g of
      Inl e \<Rightarrow> Inl e
    | Inr g' \<Rightarrow> addPasses api_texture mrg m mc cmin step (Suc index) ps g')"

text \<open>
  \<open>to.steps = map((passes, step) => passes || map(addPass(step), maps.passes), range(steps),
  0)\<close> for \<open>steps\<close> a number: the passes of every step are made, step by step.
\<close>

fun addSteps ::
  "bool \<Rightarrow> bool \<Rightarrow> maps \<Rightarrow> jsnum option \<Rightarrow> nat \<Rightarrow> nat list \<Rightarrow> gl \<Rightarrow> js_error + gl" where
  "addSteps api_texture mrg m mc cmin [] g = Inr g"
| "addSteps api_texture mrg m mc cmin (step # ss) g =
    (case addPasses api_texture mrg m mc cmin step 0 (passes m) g of
      Inl e \<Rightarrow> Inl e
    | Inr g' \<Rightarrow> addSteps api_texture mrg m mc cmin ss g')"

text \<open>
  The default of \<open>channelsMin\<close>. \<open>state.merge\<close> is the flag (the default \<open>true\<close>, or
  \<open>false\<close>); a merge object with a texture of its own is not modelled.
\<close>

definition channelsMinOf :: "maps \<Rightarrow> nat" where
  "channelsMinOf m = (case channelsMin m of None \<Rightarrow> channelsMinDef | Some c \<Rightarrow> c)"

text \<open>
  The merged texture, \<open>addTexture(mergeChannels, mw, mh)()\<close>: called without \<open>index\<close>, \<open>c\<close>
  and \<open>color\<close>, it always makes a texture. The framebuffer \<open>addPass(null, false)()\<close> that
  follows has no color attachment (\<open>color\<close> is \<open>false\<close>) and no pass.
\<close>

definition addMerged :: "bool \<Rightarrow> jsnum \<Rightarrow> gl \<Rightarrow> gl" where
  "addMerged api_texture channels g =
    g\<lparr>size_textures := Suc (size_textures g),
      created := (if api_texture then created g @ [channels] else created g),
      size_framebuffers := Suc (size_framebuffers g),
      to_merge_all := Some \<lparr>m_channels = channels,
        m_texture = (if api_texture then Some (length (created g)) else None),
        m_entry = size_textures g\<rparr>\<rparr>"

text \<open>
  \<open>getState\<close>: the flow, then the merged texture unless \<open>merge\<close> is off, which is when
  \<open>mergeChannels\<close> is \<open>null\<close>.
\<close>

definition getState :: "bool \<Rightarrow> state \<Rightarrow> js_error + gl" where
  "getState api_texture st =
    (case mergeChannels (merge st) (maps st) (channelsMinOf (maps st)) of
      Inl e \<Rightarrow> Inl e
    | Inr mc \<Rightarrow>
        (case addSteps api_texture (merge st) (maps st) mc (channelsMinOf (maps st))
                [0..<steps st] gl_init of
          Inl e \<Rightarrow> Inl e
        | Inr g \<Rightarrow> (case mc of None \<Rightarrow> Inr g | Some ch \<Rightarrow> Inr (addMerged api_texture ch g))))"

text \<open>
  Maps whose indexes are in range: every pass names textures of \<open>maps.textures\<close> and every
  texture names values of \<open>maps.values\<close>. \<open>maxPassLen\<close> is the attachment count of the
  largest pass; \<open>widths\<close> are the packed widths of a list of textures; \<open>sharing\<close> are the
  textures whose attachments get one channel count with a given attachment: those of every
  pass when merging, those of its own pass otherwise.
\<close>

definition wf_maps :: "maps \<Rightarrow> bool" where
  "wf_maps m =
    (list_all (list_all (\<lambda>t. t < length (textures m))) (passes m)
     \<and> list_all (list_all (\<lambda>v. v < length (values_m m))) (textures m))"

definition maxPassLen :: "nat list list \<Rightarrow> nat" where
  "maxPassLen ps = fold max (map length ps) 0"

definition widths :: "maps \<Rightarrow> nat list \<Rightarrow> nat list" where
  "widths m ts = map (\<lambda>t. packedWidth (values_m m) (textures m ! t)) ts"

definition sharing :: "state \<Rightarrow> tex_info \<Rightarrow> nat list" where
  "sharing st ti =
    (if merge st then concat (passes (maps st)) else passes (maps st) ! t_pass ti)"

text \<open>
  Examples: two values of widths 1 and 3, each in a texture and a pass of its own, with
  \<open>channelsMin = 1\<close>; the attachments of the created state in the order of \<open>to.textures\<close>.
\<close>

definition narrowMaps :: maps where
  "narrowMaps = \<lparr>values_m = [1, 3], textures = [[0], [1]], passes = [[0], [1]],
     samples = None, reads = None, channelsMin = Some 1\<rparr>"

definition narrowState :: state where
  "narrowState = \<lparr>maps = narrowMaps, steps = 2, bound = None, size_count = None, pre = None,
     passNow = None, stepNow = None, merge = True, glsl = None, macros = MNullish\<rparr>"

text \<open>
  What \<open>getState\<close> records for an attachment of texture \<open>i\<close>: its index, a pass that holds
  it, its map, and the channel count of the pass (\<open>mergeChannels\<close> when that is set).
\<close>

definition tex_ok :: "maps \<Rightarrow> jsnum option \<Rightarrow> nat \<Rightarrow> nat \<Rightarrow> tex_info \<Rightarrow> bool" where
  "tex_ok m mc cmin i ti =
    (t_index ti = i \<and> t_pass ti < length (passes m) \<and> i \<in> set (passes m ! t_pass ti)
     \<and> t_map ti = nth_opt (textures m) i
     \<and> (case mc of
          Some ch \<Rightarrow> t_channels ti = ch
        | None \<Rightarrow> passChannels m (passes m ! t_pass ti) (Some cmin) = Inr (t_channels ti)))"

text \<open>
  The pool of \<open>k\<close> textures, all made with \<open>ch\<close> channels and nothing else made: the color
  array holds the textures \<open>0, ..., k - 1\<close> and every attachment recorded is one of them.
\<close>

definition pool_ok :: "gl \<Rightarrow> nat option list \<Rightarrow> nat \<Rightarrow> jsnum \<Rightarrow> bool" where
  "pool_ok g color k ch =
    (color = map Some [0..<k] \<and> created g = replicate k ch \<and> size_textures g = k
     \<and> (\<forall>s i ti. to_textures g (s, i) = Some ti \<longrightarrow> (\<exists>h<k. t_texture ti = Some h)))"

text \<open>The pool as \<open>addPass\<close> reads it: \<open>(colorPool ??= [])\<close>.\<close>

definition poolOf :: "gl \<Rightarrow> nat option list" where
  "poolOf g = (case colorPool g of None \<Rightarrow> [] | Some cp \<Rightarrow> cp)"

text \<open>
  The channel count recorded at \<open>to.textures[s][i]\<close> of a created state, if there is one.
\<close>

definition channelsAt :: "js_error + gl \<Rightarrow> nat \<Rightarrow> nat \<Rightarrow> jsnum option" where
  "channelsAt r s i =
    (case r of Inl e \<Rightarrow> None | Inr g \<Rightarrow> map_option t_channels (to_textures g (s, i)))"

section \<open>The macros (macros.js)\<close>

subsection \<open>Strings and numbers in template literals\<close>


definition nl :: string where
  "nl = [CHR 0x0A]"

definition rgba :: string where
  "rgba = ''rgba''"

function show_nat :: "nat \<Rightarrow> string" where
  "show_nat n =
    (if n < 10 then [char_of (48 + n)] else show_nat (n div 10) @ [char_of (48 + n mod 10)])"
  by pat_completeness auto
termination
  by (relation "measure id") auto

declare show_nat.simps [simp del]

definition show_int :: "int \<Rightarrow> string" where
  "show_int i = (if i < 0 then ''-'' @ show_nat (nat (- i)) else show_nat (nat i))"

definition show_opt :: "nat option \<Rightarrow> string" where
  "show_opt x = (case x of None \<Rightarrow> ''undefined'' | Some n \<Rightarrow> show_nat n)"

fun join :: "string \<Rightarrow> string list \<Rightarrow> string" where
  "join sep [] = []"
| "join sep [x] = x"
| "join sep (x # y # ys) = x @ sep @ join sep (y # ys)"

text \<open>
  \<open>id = JSON.stringify\<close> on the values the cache keys are made of: a list of numbers, a list
  of such lists, the samples of a pass (pairs, or \<open>undefined\<close>) and the reads of a pass (a
  sparse array of lists, a hole being written \<open>null\<close>, or \<open>undefined\<close>).
\<close>

definition json_nats :: "nat list \<Rightarrow> string" where
  "json_nats xs = ''['' @ join '','' (map show_nat xs) @ '']''"

definition json_natss :: "nat list list \<Rightarrow> string" where
  "json_natss xss = ''['' @ join '','' (map json_nats xss) @ '']''"



text \<open>
  \<open>s.slice(a, b)\<close> for numbers that are natural or \<open>NaN\<close>: \<open>NaN\<close> counts as 0, both ends are
  clipped to the length, and the result is empty when the start is not before the end.
\<close>

definition js_slice :: "string \<Rightarrow> jsnum \<Rightarrow> jsnum \<Rightarrow> string" where
  "js_slice s a b =
    (let from = min (case a of None \<Rightarrow> 0 | Some x \<Rightarrow> x) (length s);
         to = min (case b of None \<Rightarrow> 0 | Some x \<Rightarrow> x) (length s)
     in take (to - from) (drop from s))"


subsection \<open>The cache and the hooks\<close>

text \<open>
  \<open>cache\<close> is the object of the module that the macro functions store their results in
  under string keys; the key \<open>'tapsSamples'\<close> holds the array that \<open>macroTaps\<close> reuses as a
  buffer. Every other key written starts with a hook name and a colon, so the two never
  meet and the cache is a map from keys to strings beside the buffer.
\<close>

record cache =
  entries :: "string \<Rightarrow> string option"
  tapsSamples :: "string list option"

definition cache_empty :: cache where
  "cache_empty = \<lparr>entries = (\<lambda>k. None), tapsSamples = None\<rparr>"

text \<open>
  \<open>cache[c] ??= text\<close>: the stored string if there is one; otherwise the text is computed
  and stored, unless computing it throws.
\<close>

definition cached :: "string \<Rightarrow> js_error + string \<Rightarrow> cache \<Rightarrow> (js_error + string) \<times> cache" where
  "cached k v c =
    (case entries c k of
      Some s \<Rightarrow> (Inr s, c)
    | None \<Rightarrow>
        (case v of
          Inl e \<Rightarrow> (Inl e, c)
        | Inr s \<Rightarrow> (Inr s, c\<lparr>entries := (entries c)(k \<mapsto> s)\<rparr>)))"

text \<open>
  \<open>hasMacros(props, key, on = '', macros = props?.macros)\<close>; the result \<open>None\<close> is \<open>null\<close>
  (the macros are to be made here). \<open>hasMacrosIn\<close> looks \<open>key\<close> up in the properties of an
  object and enters the value found (\<open>key in macros\<close>, \<open>macros[key]\<close>). The last case of the
  source, \<open>hasMacros(props, key_on, '', macros)\<close> for the same \<open>macros\<close>, can only look
  \<open>key_on\<close> up, since its \<open>on\<close> is empty.
\<close>

fun hasMacros :: "string \<Rightarrow> string \<Rightarrow> macros \<Rightarrow> string option"
  and hasMacrosIn :: "string \<Rightarrow> string \<Rightarrow> (string \<times> macros) list \<Rightarrow> string option option" where
  "hasMacros key on MNullish = None"
| "hasMacros key on MTrue = None"
| "hasMacros key on MFalsy = Some []"
| "hasMacros key on (MFunction f) = f key on"
| "hasMacros key on (MString s) = Some s"
| "hasMacros key on (MObject kvs) =
    (case hasMacrosIn key on kvs of
      Some r \<Rightarrow> r
    | None \<Rightarrow>
        (if on \<noteq> []
         then (case hasMacrosIn ((if key \<noteq> [] then key @ ''_'' else []) @ on) [] kvs of
                 Some r \<Rightarrow> r
               | None \<Rightarrow> None)
         else None))"
| "hasMacros key on MOther = None"
| "hasMacrosIn key on [] = None"
| "hasMacrosIn key on ((k, m) # kvs) =
    (if k = key then Some (hasMacros key on m) else hasMacrosIn key on kvs)"

subsection \<open>Lists in GLSL\<close>














subsection \<open>The macros of a pass\<close>

text \<open>The destructuring defaults \<open>pre: n = preDef\<close> and \<open>bound = boundDef\<close>.\<close>

definition preOf :: "state \<Rightarrow> string" where
  "preOf st = (case pre st of None \<Rightarrow> preDef | Some n \<Rightarrow> n)"

definition boundOf :: "state \<Rightarrow> nat" where
  "boundOf st = (case bound st of None \<Rightarrow> boundDef | Some b \<Rightarrow> b)"

text \<open>
  \<open>macroValues\<close>. The inner \<open>reduce\<close> over the values of a texture carries the text \<open>s\<close> and
  the channel offset \<open>i\<close>, which the callback advances by \<open>i += values[v]\<close>; \<open>i = 0\<close> is a
  default parameter of the outer callback, so the offset starts at 0 for every texture.
\<close>

fun valuesTexture :: "string \<Rightarrow> nat list \<Rightarrow> nat \<Rightarrow> nat list \<Rightarrow> string \<times> jsnum \<Rightarrow> string \<times> jsnum" where
  "valuesTexture n vals t [] si = si"
| "valuesTexture n vals t (v # vs) si =
    (let s = fst si; i = snd si; i' = js_add i (nth_opt vals v)
     in valuesTexture n vals t vs
          (s @ ''#define '' @ n @ ''texture_'' @ show_nat v @ '' '' @ show_nat t @ nl
             @ ''#define '' @ n @ ''channels_'' @ show_nat v @ '' '' @ js_slice rgba i i'
             @ nl @ nl, i'))"

fun valuesTextures :: "string \<Rightarrow> nat list \<Rightarrow> nat \<Rightarrow> nat list list \<Rightarrow> string \<Rightarrow> string" where
  "valuesTextures n vals t [] s = s"
| "valuesTextures n vals t (texture # rest) s =
    valuesTextures n vals (Suc t) rest (fst (valuesTexture n vals t texture (s, Some 0)))"

text \<open>The number written for \<open>stepsPast\<close>: \<open>stepsL-bound\<close>.\<close>

definition stepsPast :: "state \<Rightarrow> int" where
  "stepsPast st = int (steps st) - int (boundOf st)"

definition macroValues_key :: "state \<Rightarrow> string" where
  "macroValues_key st =
    ''values'' @ '':'' @ preOf st @ '','' @ show_nat (boundOf st) @ '',''
    @ json_nats (values_m (maps st)) @ '','' @ json_natss (textures (maps st)) @ '',''
    @ show_nat (steps st) @ '','' @ show_nat (length (passes (maps st))) @ '',''
    @ show_opt (size_count st)"

definition macroValues_text :: "state \<Rightarrow> string" where
  "macroValues_text st =
    (let n = preOf st in
     valuesTextures n (values_m (maps st)) 0 (textures (maps st)) []
     @ (case size_count st of
          None \<Rightarrow> []
        | Some count \<Rightarrow> (if count = 0 then [] else ''#define count '' @ show_nat count @ nl))
     @ ''#define '' @ n @ ''textures '' @ show_nat (length (textures (maps st))) @ nl
     @ ''#define '' @ n @ ''passes '' @ show_nat (length (passes (maps st))) @ nl
     @ ''#define '' @ n @ ''stepsPast '' @ show_int (stepsPast st) @ nl
     @ ''#define '' @ n @ ''steps '' @ show_nat (steps st) @ nl
     @ ''#define '' @ n @ ''bound '' @ show_nat (boundOf st) @ nl @ nl)"

definition macroValues :: "state \<Rightarrow> string \<Rightarrow> cache \<Rightarrow> (js_error + string) \<times> cache" where
  "macroValues st on c =
    (case hasMacros ''values'' on (macros st) of
      Some hook \<Rightarrow> (Inr hook, c)
    | None \<Rightarrow> cached (macroValues_key st) (Inr (macroValues_text st)) c)"

text \<open>
  \<open>macroOutput\<close>. \<open>pass = passes[p]\<close> is \<open>undefined\<close> when \<open>passNow\<close> is not the index of a
  pass, and \<open>textures[texture]\<close> when a pass names no texture; reducing either throws.
\<close>

fun outputTexture ::
  "string \<Rightarrow> nat list \<Rightarrow> nat \<Rightarrow> nat \<Rightarrow> nat list \<Rightarrow> string \<times> jsnum \<Rightarrow> string \<times> jsnum" where
  "outputTexture n vals texture bnd [] si = si"
| "outputTexture n vals texture bnd (v # vs) si =
    (let s = fst si; i = snd si; i' = js_add i (nth_opt vals v)
     in outputTexture n vals texture bnd vs
          (s @ nl
             @ ''#define '' @ n @ ''bound_'' @ show_nat v @ '' '' @ show_nat texture @ nl
             @ ''#define '' @ n @ ''attach_'' @ show_nat v @ '' '' @ show_nat bnd @ nl
             @ ''#define '' @ n @ ''output_'' @ show_nat v @ '' gl_FragData['' @ n @ ''attach_''
             @ show_nat v @ ''].'' @ js_slice rgba i i' @ nl, i'))"

fun outputPass :: "string \<Rightarrow> maps \<Rightarrow> nat \<Rightarrow> nat list \<Rightarrow> string \<Rightarrow> js_error + string" where
  "outputPass n m bnd [] s = Inr s"
| "outputPass n m bnd (texture # rest) s =
    (case nth_opt (textures m) texture of
      None \<Rightarrow> Inl TypeError
    | Some tex \<Rightarrow>
        outputPass n m (Suc bnd) rest
          (fst (outputTexture n (values_m m) texture bnd tex (s, Some 0))))"

definition macroOutput_key :: "state \<Rightarrow> string" where
  "macroOutput_key st =
    ''output'' @ '':'' @ preOf st @ '','' @ show_opt (passNow st) @ '',''
    @ json_nats (values_m (maps st)) @ '','' @ json_natss (textures (maps st)) @ '',''
    @ json_natss (passes (maps st))"

definition macroOutput_text :: "state \<Rightarrow> js_error + string" where
  "macroOutput_text st =
    (let n = preOf st in
     case (case passNow st of None \<Rightarrow> None | Some p \<Rightarrow> nth_opt (passes (maps st)) p) of
       None \<Rightarrow> Inl TypeError
     | Some pass \<Rightarrow>
         (case outputPass n (maps st) 0 pass [] of
           Inl e \<Rightarrow> Inl e
         | Inr s \<Rightarrow> Inr (''#define '' @ n @ ''passNow '' @ show_opt (passNow st) @ nl @ s @ nl)))"

definition macroOutput :: "state \<Rightarrow> string \<Rightarrow> cache \<Rightarrow> (js_error + string) \<times> cache" where
  "macroOutput st on c =
    (case hasMacros ''output'' on (macros st) of
      Some hook \<Rightarrow> (Inr hook, c)
    | None \<Rightarrow> cached (macroOutput_key st) (macroOutput_text st) c)"

























text \<open>
  Modelled from the spec: the largest stepOffset that the derive entries refer to (section 3,
  "max stepOffset referenced across all derives"), 0 when there is none; a bare value index
  refers to offset 0. The derives are the planner's input (maps.js is missing); the macros
  never read them.
\<close>

fun stepOffset :: "derive \<Rightarrow> nat" where
  "stepOffset (DeriveAt k v) = k"
| "stepOffset (DeriveValue v) = 0"
| "stepOffset (DeriveAll k) = k"

definition maxStepOffset :: "derive list list \<Rightarrow> nat" where
  "maxStepOffset ders = fold max (map stepOffset (concat ders)) 0"

text \<open>
  Examples: the state of the documentation of \<open>macroPass\<close> in its second pass (the values
  \<open>[2, 4, 1]\<close> with the derives \<open>exDerives\<close>, packed, one texture per pass, three steps),
  without merging, and the same state in its first pass.
\<close>

definition docMaps :: maps where
  "docMaps = \<lparr>values_m = [2, 4, 1], textures = [[1], [0, 2]], passes = [[0], [1]],
     samples = Some [[], [(0, 1), (1, 1), (0, 0)]],
     reads = Some [[None, Some []], [Some [0], None, Some [1, 0, 2, 0]]],
     channelsMin = None\<rparr>"

definition docState :: state where
  "docState = \<lparr>maps = docMaps, steps = 3, bound = None, size_count = Some 32, pre = None,
     passNow = Some 1, stepNow = None, merge = False, glsl = None, macros = MNullish\<rparr>"


text \<open>
  Example: two values of 3 channels each in one texture, drawn by one pass.
\<close>

definition clipMaps :: maps where
  "clipMaps = \<lparr>values_m = [3, 3], textures = [[0, 1]], passes = [[0]],
     samples = None, reads = None, channelsMin = None\<rparr>"

definition clipState :: state where
  "clipState = \<lparr>maps = clipMaps, steps = 2, bound = None, size_count = None, pre = None,
     passNow = Some 0, stepNow = None, merge = False, glsl = None, macros = MNullish\<rparr>"

text \<open>
  The channel names that the reducers of \<open>macroValues\<close> and \<open>macroOutput\<close> write for the
  values of one texture, in order: the values of \<open>rgba.slice(i, (i += values[v]))\<close>. The
  lines written for a value, given its channel names.
\<close>

fun channelSlices :: "nat list \<Rightarrow> jsnum \<Rightarrow> nat list \<Rightarrow> string list" where
  "channelSlices vals i [] = []"
| "channelSlices vals i (v # vs) =
    js_slice rgba i (js_add i (nth_opt vals v))
    # channelSlices vals (js_add i (nth_opt vals v)) vs"

definition valuesLines :: "string \<Rightarrow> nat \<Rightarrow> nat \<Rightarrow> string \<Rightarrow> string" where
  "valuesLines n t v channels =
    ''#define '' @ n @ ''texture_'' @ show_nat v @ '' '' @ show_nat t @ nl
    @ ''#define '' @ n @ ''channels_'' @ show_nat v @ '' '' @ channels @ nl @ nl"

definition outputLines :: "string \<Rightarrow> nat \<Rightarrow> nat \<Rightarrow> nat \<Rightarrow> string \<Rightarrow> string" where
  "outputLines n texture bnd v channels =
    nl
    @ ''#define '' @ n @ ''bound_'' @ show_nat v @ '' '' @ show_nat texture @ nl
    @ ''#define '' @ n @ ''attach_'' @ show_nat v @ '' '' @ show_nat bnd @ nl
    @ ''#define '' @ n @ ''output_'' @ show_nat v @ '' gl_FragData['' @ n @ ''attach_''
    @ show_nat v @ ''].'' @ channels @ nl"

section \<open>Properties of the step runner\<close>

lemma map_fst_enumerate_fun:
  "map (\<lambda>p. g (fst p)) (enumerate n xs) = map g [n..<n + length xs]"
  using map_map [of g fst "enumerate n xs"] by (simp add: comp_def)

lemma draws_append: "draws (xs @ ys) = draws xs @ draws ys"
  by (induction xs rule: draws.induct) simp_all

lemma run_passes_stepNow:
  "stepNow (fst (run_passes h sp i ps evs)) = stepNow sp"
  by (induction ps arbitrary: sp i evs) (simp_all add: Let_def)

lemma run_passes_draws:
  "draws (snd (run_passes h sp i ps evs)) =
     draws evs @ map (\<lambda>(j, p). passPropsOf h (sp\<lparr>passNow := Some j\<rparr>) p) (enumerate i ps)"
proof (induction ps arbitrary: sp i evs)
  case Nil
  then show ?case by simp
next
  case (Cons p ps)
  show ?case
    by (simp add: Let_def Cons.IH draws_append)
qed

lemma run_stepProps:
  "snd (run h props) =
     snd (run_passes h (stepPropsOf h (props\<lparr>stepNow := Some (stepNext (stepNow props))\<rparr>)) 0
       (passes (maps (stepPropsOf h (props\<lparr>stepNow := Some (stepNext (stepNow props))\<rparr>)))) [])"
  by (simp add: run_def stepPropsOf_def Let_def split: option.splits)

lemma run_stepNow: "stepNow (fst (run h props)) = Some (stepNext (stepNow props))"
  by (simp add: run_def Let_def run_passes_stepNow split: option.splits)

lemma stepNext_inc: "stepNext s = (case s of None \<Rightarrow> 0 | Some n \<Rightarrow> n + 1)"
  by (simp add: stepNext_def split: option.splits)

text \<open>
  C9. Every call of the step function advances \<open>stepNow\<close> by one (to 0 when it was unset)
  and then calls the pass draw command once per entry of \<open>maps.passes\<close> of the step's props,
  in list order: the props drawn are those of the entries, taken in order, each with
  \<open>passNow\<close> set to the entry's index. Without \<open>onStep\<close> and \<open>onPass\<close> hooks the step's
  props are the caller's, so the draws are one per entry of the caller's \<open>maps.passes\<close>, with
  the advanced \<open>stepNow\<close> and \<open>passNow = 0, 1, ...\<close>.
\<close>

theorem run_draws_each_pass_once:
  "stepNow (fst (run h props)) = Some (case stepNow props of None \<Rightarrow> 0 | Some n \<Rightarrow> n + 1)
   \<and> (let props' = props\<lparr>stepNow := Some (stepNext (stepNow props))\<rparr>;
          sp = stepPropsOf h props'
      in draws (snd (run h props)) =
           map (\<lambda>(i, p). passPropsOf h (sp\<lparr>passNow := Some i\<rparr>) p) (enumerate 0 (passes (maps sp)))
         \<and> length (draws (snd (run h props))) = length (passes (maps sp)))
   \<and> (onStep h = None \<and> onPass h = None \<longrightarrow>
        draws (snd (run h props)) =
          map (\<lambda>i. props\<lparr>stepNow := Some (stepNext (stepNow props)), passNow := Some i\<rparr>)
            [0..<length (passes (maps props))])"
proof -
  let ?props' = "props\<lparr>stepNow := Some (stepNext (stepNow props))\<rparr>"
  let ?sp = "stepPropsOf h ?props'"
  have a: "stepNow (fst (run h props)) = Some (case stepNow props of None \<Rightarrow> 0 | Some n \<Rightarrow> n + 1)"
    by (simp add: run_stepNow stepNext_inc)
  have b: "draws (snd (run h props)) =
      map (\<lambda>(i, p). passPropsOf h (?sp\<lparr>passNow := Some i\<rparr>) p) (enumerate 0 (passes (maps ?sp)))"
    by (simp add: run_stepProps run_passes_draws)
  have c: "length (draws (snd (run h props))) = length (passes (maps ?sp))"
    by (simp add: b)
  have d: "draws (snd (run h props)) =
      map (\<lambda>i. props\<lparr>stepNow := Some (stepNext (stepNow props)), passNow := Some i\<rparr>)
        [0..<length (passes (maps props))]"
    if "onStep h = None" "onPass h = None"
  proof -
    have sp: "?sp = ?props'" using that by (simp add: stepPropsOf_def)
    have "draws (snd (run h props)) =
        map (\<lambda>(i, p). ?props'\<lparr>passNow := Some i\<rparr>) (enumerate 0 (passes (maps props)))"
      using that by (simp add: b sp passPropsOf_def)
    then show ?thesis
      using map_fst_enumerate_fun [of "\<lambda>i. ?props'\<lparr>passNow := Some i\<rparr>" 0 "passes (maps props)"]
      by (simp add: case_prod_unfold)
  qed
  show ?thesis using a b c d by (simp add: Let_def)
qed

theorem run_draws_each_pass_once_witness:
  "stepNow (fst (run noHooks exState)) = Some 0
   \<and> draws (snd (run noHooks exState)) =
       [exState\<lparr>stepNow := Some 0, passNow := Some 0\<rparr>,
        exState\<lparr>stepNow := Some 0, passNow := Some 1\<rparr>]"
proof -
  have h: "onStep noHooks = None \<and> onPass noHooks = None"
    by (simp add: noHooks_def)
  have s: "stepNow exState = None" "passes (maps exState) = [[0], [1]]"
    by (simp_all add: exState_def exMaps_def)
  have u: "[0..<2] = [0, Suc 0]"
    by (simp add: upt_rec)
  show ?thesis
    using run_draws_each_pass_once [of noHooks exState] h
    by (simp add: s u stepNext_def)
qed

section \<open>Properties of the planner\<close>

lemma group_from_concat: "concat (group_from a cur ts) = cur @ ts"
  by (induction ts arbitrary: cur) auto

lemma group_from_bound:
  "1 \<le> a \<Longrightarrow> length cur \<le> a \<Longrightarrow> p \<in> set (group_from a cur ts) \<Longrightarrow> length p \<le> a"
proof (induction ts arbitrary: cur)
  case Nil
  then show ?case by (auto split: if_splits)
next
  case (Cons t ts)
  show ?case
  proof (cases "a < length cur + 1")
    case True
    with Cons.prems have "p = cur \<or> p \<in> set (group_from a [t] ts)" by simp
    then show ?thesis
    proof
      assume "p = cur" with Cons.prems show ?thesis by simp
    next
      assume "p \<in> set (group_from a [t] ts)"
      with Cons.IH [of "[t]"] Cons.prems(1) show ?thesis by simp
    qed
  next
    case False
    with Cons.prems have "p \<in> set (group_from a (cur @ [t]) ts)" by simp
    with Cons.IH [of "cur @ [t]"] Cons.prems(1) False show ?thesis by simp
  qed
qed

lemma those_map_Some:
  "those (map f xs) = Some ys \<Longrightarrow> length ys = length xs \<and> (\<forall>i<length xs. f (xs ! i) = Some (ys ! i))"
proof (induction xs arbitrary: ys)
  case Nil
  then show ?case by simp
next
  case (Cons x xs)
  from Cons.prems obtain y ys' where y: "f x = Some y" and t: "those (map f xs) = Some ys'" and e: "ys = y # ys'"
    by (auto split: option.splits)
  from Cons.IH [OF t] have "length ys' = length xs" "\<forall>i<length xs. f (xs ! i) = Some (ys' ! i)" by simp_all
  with y e show ?case by (auto simp: nth_Cons split: nat.splits)
qed

lemma plan_Inr:
  assumes "plan vals ders lim = Inr p"
  shows "config_ok vals ders lim"
    and "plan_textures p = pack vals (channelMaxOf lim) (packed lim)"
    and "plan_passes p = group_from (attachMaxOf lim) [] [0..<length (plan_textures p)]"
    and "resolveSamples (plan_textures p) ders (plan_passes p) = Inr (zip (plan_samples p) (plan_reads p))"
  using assms
  by (auto simp: plan_def group_def Let_def zip_map_fst_snd split: if_splits sum.splits)

lemma resolveSamples_Inr:
  "resolveSamples texs ders ps = Inr rs \<Longrightarrow>
     length rs = length ps \<and> (\<forall>i<length ps. resolvePass texs ders (ps ! i) = Inr (rs ! i))"
proof (induction ps arbitrary: rs)
  case Nil
  then show ?case by simp
next
  case (Cons q ps)
  from Cons.prems obtain r rs' where r: "resolvePass texs ders q = Inr r"
    and t: "resolveSamples texs ders ps = Inr rs'" and e: "rs = r # rs'"
    by (auto split: sum.splits)
  from Cons.IH [OF t] r e show ?case by (auto simp: nth_Cons split: nat.splits)
qed

lemma first_index_append_in: "c \<in> set xs \<Longrightarrow> first_index (xs @ ys) c = first_index xs c"
  by (induction xs) auto

lemma first_index_lt: "c \<in> set xs \<Longrightarrow> first_index xs c < length xs"
  by (induction xs) auto

lemma first_index_append_notin:
  "c \<notin> set xs \<Longrightarrow> first_index (xs @ ys) c = length xs + first_index ys c"
  by (induction xs) auto

lemma first_index_nth: "c \<in> set xs \<Longrightarrow> xs ! first_index xs c = c"
  by (induction xs) auto

lemma dedupe_into_inv:
  "distinct seen \<Longrightarrow> set seen = set bef \<Longrightarrow>
   sorted_wrt (\<lambda>a b. first_index (bef @ cs) a < first_index (bef @ cs) b) seen \<Longrightarrow>
   distinct (dedupe_into seen cs) \<and> set (dedupe_into seen cs) = set (bef @ cs) \<and>
   sorted_wrt (\<lambda>a b. first_index (bef @ cs) a < first_index (bef @ cs) b) (dedupe_into seen cs)"
proof (induction cs arbitrary: seen bef)
  case Nil
  then show ?case by simp
next
  case (Cons c cs)
  let ?full = "bef @ c # cs"
  have full: "(bef @ [c]) @ cs = ?full" by simp
  show ?case
  proof (cases "c \<in> set seen")
    case True
    have "distinct (dedupe_into seen cs) \<and> set (dedupe_into seen cs) = set ((bef @ [c]) @ cs) \<and>
      sorted_wrt (\<lambda>a b. first_index ((bef @ [c]) @ cs) a < first_index ((bef @ [c]) @ cs) b)
        (dedupe_into seen cs)"
    proof (rule Cons.IH)
      show "distinct seen" by (rule Cons.prems(1))
      show "set seen = set (bef @ [c])" using True Cons.prems(2) by auto
      show "sorted_wrt (\<lambda>a b. first_index ((bef @ [c]) @ cs) a < first_index ((bef @ [c]) @ cs) b) seen"
        using Cons.prems(3) by simp
    qed
    with True show ?thesis by simp
  next
    case False
    have new: "c \<notin> set bef" using False Cons.prems(2) by simp
    have "distinct (dedupe_into (seen @ [c]) cs) \<and>
      set (dedupe_into (seen @ [c]) cs) = set ((bef @ [c]) @ cs) \<and>
      sorted_wrt (\<lambda>a b. first_index ((bef @ [c]) @ cs) a < first_index ((bef @ [c]) @ cs) b)
        (dedupe_into (seen @ [c]) cs)"
    proof (rule Cons.IH)
      show "distinct (seen @ [c])" using False Cons.prems(1) by simp
      show "set (seen @ [c]) = set (bef @ [c])" using Cons.prems(2) by simp
      have "first_index ?full a < first_index ?full c" if "a \<in> set seen" for a
      proof -
        have "a \<in> set bef" using that Cons.prems(2) by simp
        then have "first_index ?full a < length bef"
          by (simp add: first_index_append_in first_index_lt)
        moreover have "first_index ?full c = length bef"
          using new by (simp add: first_index_append_notin)
        ultimately show ?thesis by simp
      qed
      then show "sorted_wrt (\<lambda>a b. first_index ((bef @ [c]) @ cs) a < first_index ((bef @ [c]) @ cs) b)
          (seen @ [c])"
        using Cons.prems(3) by (simp add: sorted_wrt_append)
    qed
    with False show ?thesis by simp
  qed
qed

lemma dedupe_props:
  "distinct (dedupe cs)" "set (dedupe cs) = set cs"
  "sorted_wrt (\<lambda>a b. first_index cs a < first_index cs b) (dedupe cs)"
  using dedupe_into_inv [of "[]" "[]" cs] by (simp_all add: dedupe_def)

lemma index_in_Some: "index_in xs c = Some r \<Longrightarrow> r < length xs \<and> xs ! r = c"
  by (auto simp: index_in_def first_index_lt first_index_nth split: if_splits)

lemma those_index_in:
  "those (map (index_in ss) cs) = Some rs \<Longrightarrow>
     list_all (\<lambda>r. r < length ss) rs \<and> map (\<lambda>r. ss ! r) rs = cs"
proof -
  assume a: "those (map (index_in ss) cs) = Some rs"
  from those_map_Some [OF a] have l: "length rs = length cs"
    and n: "\<forall>i<length cs. index_in ss (cs ! i) = Some (rs ! i)" by simp_all
  have "\<forall>i<length rs. rs ! i < length ss \<and> ss ! (rs ! i) = cs ! i"
    using l n index_in_Some by metis
  then show ?thesis
    using l by (auto simp: list_all_length intro: nth_equalityI)
qed

lemma those_map_eq:
  "those (map f xs) = Some ys \<Longrightarrow> ys = map (\<lambda>x. case f x of None \<Rightarrow> d | Some y \<Rightarrow> y) xs"
proof -
  assume a: "those (map f xs) = Some ys"
  from those_map_Some [OF a] show ?thesis
    by (auto intro!: nth_equalityI)
qed

lemma resolvePass_Inr:
  assumes "resolvePass texs ders pass = Inr (ss, rds)"
  shows "those (map (valueCoords texs ders) (passValues texs pass)) =
           Some (map (coordsOf texs ders) (passValues texs pass))"
    and "ss = dedupe (passCoords texs ders pass)"
    and "\<exists>rs. those (map (\<lambda>cs. those (map (index_in ss) cs))
              (map (coordsOf texs ders) (passValues texs pass))) = Some rs
            \<and> rds = zip (passValues texs pass) rs"
proof -
  let ?vs = "passValues texs pass"
  from assms obtain css where css: "those (map (valueCoords texs ders) ?vs) = Some css"
    by (auto simp: resolvePass_def Let_def split: option.splits)
  have e: "css = map (coordsOf texs ders) ?vs"
    using those_map_eq [OF css, of "[]"] by (simp add: coordsOf_def [abs_def])
  show "those (map (valueCoords texs ders) ?vs) = Some (map (coordsOf texs ders) ?vs)"
    using css e by simp
  from assms css show "ss = dedupe (passCoords texs ders pass)"
    by (auto simp: resolvePass_def Let_def passCoords_def e split: option.splits)
  from assms css show "\<exists>rs. those (map (\<lambda>cs. those (map (index_in ss) cs))
              (map (coordsOf texs ders) ?vs)) = Some rs \<and> rds = zip ?vs rs"
    by (auto simp: resolvePass_def Let_def e split: option.splits)
qed

lemma valueCoords_derive:
  assumes "valueCoords texs ders v = Some cs" "d \<in> set (derivesOf ders v)"
  shows "\<exists>dc. deriveCoords texs d = Some dc \<and> set dc \<subseteq> set cs"
proof -
  from assms(1) obtain dcs where t: "those (map (deriveCoords texs) (derivesOf ders v)) = Some dcs"
    and c: "cs = concat dcs"
    by (auto simp: valueCoords_def)
  from assms(2) obtain i where i: "i < length (derivesOf ders v)" "derivesOf ders v ! i = d"
    by (auto simp: in_set_conv_nth)
  from those_map_Some [OF t] i have "length dcs = length (derivesOf ders v)"
    and "deriveCoords texs d = Some (dcs ! i)" by auto
  moreover from this i have "dcs ! i \<in> set dcs" by simp
  ultimately show ?thesis using c by auto
qed

lemma resolvePass_requirements:
  assumes r: "resolvePass texs ders pass = Inr (ss, rds)"
    and v: "v \<in> set (passValues texs pass)" and d: "d \<in> set (derivesOf ders v)"
  shows "\<exists>dc. deriveCoords texs d = Some dc \<and> (\<forall>c\<in>set dc. \<exists>!j. j < length ss \<and> ss ! j = c)"
proof -
  let ?vs = "passValues texs pass"
  from v obtain i where i: "i < length ?vs" "?vs ! i = v" by (auto simp: in_set_conv_nth)
  from those_map_Some [OF resolvePass_Inr(1) [OF r]] i
  have vc: "valueCoords texs ders v = Some (coordsOf texs ders v)" by auto
  from valueCoords_derive [OF vc d] obtain dc where dc: "deriveCoords texs d = Some dc"
    and sub: "set dc \<subseteq> set (coordsOf texs ders v)" by blast
  have "set (coordsOf texs ders v) \<subseteq> set (passCoords texs ders pass)"
    using v by (auto simp: passCoords_def)
  with sub have "set dc \<subseteq> set ss"
    using resolvePass_Inr(2) [OF r] by (simp add: dedupe_props(2))
  moreover have "distinct ss"
    using resolvePass_Inr(2) [OF r] by (simp add: dedupe_props(1))
  ultimately have "\<forall>c\<in>set dc. \<exists>!j. j < length ss \<and> ss ! j = c"
    using distinct_Ex1 [of ss] by blast
  with dc show ?thesis by blast
qed

lemma resolvePass_reads:
  assumes r: "resolvePass texs ders pass = Inr (ss, rds)"
  shows "map fst rds = passValues texs pass"
    and "\<forall>(v, rs)\<in>set rds. list_all (\<lambda>j. j < length ss) rs \<and> map (\<lambda>j. ss ! j) rs = coordsOf texs ders v"
proof -
  let ?vs = "passValues texs pass"
  from resolvePass_Inr(3) [OF r] obtain rss where
    t: "those (map (\<lambda>cs. those (map (index_in ss) cs)) (map (coordsOf texs ders) ?vs)) = Some rss"
    and z: "rds = zip ?vs rss" by blast
  from those_map_Some [OF t] have l: "length rss = length ?vs"
    and n: "\<forall>i<length ?vs. those (map (index_in ss) (coordsOf texs ders (?vs ! i))) = Some (rss ! i)"
    by simp_all
  show "map fst rds = ?vs" using z l by simp
  show "\<forall>(v, rs)\<in>set rds. list_all (\<lambda>j. j < length ss) rs \<and> map (\<lambda>j. ss ! j) rs = coordsOf texs ders v"
  proof (clarify)
    fix v rs assume "(v, rs) \<in> set rds"
    with z l obtain i where "i < length ?vs" "v = ?vs ! i" "rs = rss ! i"
      by (auto simp: in_set_zip)
    with n have "those (map (index_in ss) (coordsOf texs ders v)) = Some rs" by simp
    from those_index_in [OF this]
    show "list_all (\<lambda>j. j < length ss) rs \<and> map (\<lambda>j. ss ! j) rs = coordsOf texs ders v" .
  qed
qed

lemma plan_pass:
  assumes "plan vals ders lim = Inr p" "i < length (plan_passes p)"
  shows "resolvePass (plan_textures p) ders (plan_passes p ! i) = Inr (plan_samples p ! i, plan_reads p ! i)"
proof -
  from assms(1) have l: "length (plan_samples p) = length (plan_reads p)"
    by (auto simp: plan_def Let_def split: if_splits sum.splits)
  from resolveSamples_Inr [OF plan_Inr(4) [OF assms(1)]] assms(2) l
  show ?thesis by auto
qed

text \<open>
  C3. For every pass of a plan, the sample list has no duplicate (stepOffset, textureIndex)
  pair; it holds exactly the coordinates the pass asks for, ordered by their first
  occurrence in the order the coordinates are met; every derive entry of every value written
  in the pass resolves to coordinates each of which is found at exactly one index of the
  list; and the read indexes of each value point, in order, at the coordinates of its
  entries.
\<close>

theorem plan_samples_deduplicated:
  assumes "plan vals ders lim = Inr p" and "i < length (plan_passes p)"
  shows "distinct (plan_samples p ! i)
    \<and> set (plan_samples p ! i) = set (passCoords (plan_textures p) ders (plan_passes p ! i))
    \<and> sorted_wrt (\<lambda>a b. first_index (passCoords (plan_textures p) ders (plan_passes p ! i)) a
                      < first_index (passCoords (plan_textures p) ders (plan_passes p ! i)) b)
        (plan_samples p ! i)
    \<and> (\<forall>v\<in>set (passValues (plan_textures p) (plan_passes p ! i)). \<forall>d\<in>set (derivesOf ders v).
         \<exists>dc. deriveCoords (plan_textures p) d = Some dc
           \<and> (\<forall>c\<in>set dc. \<exists>!j. j < length (plan_samples p ! i) \<and> plan_samples p ! i ! j = c))
    \<and> map fst (plan_reads p ! i) = passValues (plan_textures p) (plan_passes p ! i)
    \<and> (\<forall>(v, rs)\<in>set (plan_reads p ! i).
         list_all (\<lambda>j. j < length (plan_samples p ! i)) rs
         \<and> map (\<lambda>j. plan_samples p ! i ! j) rs = coordsOf (plan_textures p) ders v)"
proof -
  note r = plan_pass [OF assms]
  have s: "plan_samples p ! i = dedupe (passCoords (plan_textures p) ders (plan_passes p ! i))"
    by (rule resolvePass_Inr(2) [OF r])
  have a: "distinct (plan_samples p ! i)" by (simp add: s dedupe_props(1))
  have b: "set (plan_samples p ! i) = set (passCoords (plan_textures p) ders (plan_passes p ! i))"
    by (simp add: s dedupe_props(2))
  have c: "sorted_wrt (\<lambda>a b. first_index (passCoords (plan_textures p) ders (plan_passes p ! i)) a
                      < first_index (passCoords (plan_textures p) ders (plan_passes p ! i)) b)
        (plan_samples p ! i)"
    unfolding s by (rule dedupe_props(3))
  have d: "\<forall>v\<in>set (passValues (plan_textures p) (plan_passes p ! i)). \<forall>d\<in>set (derivesOf ders v).
         \<exists>dc. deriveCoords (plan_textures p) d = Some dc
           \<and> (\<forall>c\<in>set dc. \<exists>!j. j < length (plan_samples p ! i) \<and> plan_samples p ! i ! j = c)"
    using resolvePass_requirements [OF r] by blast
  note e = resolvePass_reads [OF r]
  show ?thesis using a b c d e by blast
qed

text \<open>
  C4. For every input that is planned, every pass has at most \<open>attachMax\<close> textures, and the
  passes' texture lists, concatenated in pass order, are the texture indexes
  \<open>0, 1, ..., n - 1\<close> in order, each exactly once.
\<close>

theorem plan_passes_bounded_partition:
  assumes "plan vals ders lim = Inr p"
  shows "(\<forall>ps\<in>set (plan_passes p). length ps \<le> attachMaxOf lim)
    \<and> concat (plan_passes p) = [0..<length (plan_textures p)]
    \<and> distinct (concat (plan_passes p))"
proof -
  from plan_Inr(1) [OF assms] have a: "1 \<le> attachMaxOf lim" by (simp add: config_ok_def)
  note g = plan_Inr(3) [OF assms]
  have "\<forall>ps\<in>set (plan_passes p). length ps \<le> attachMaxOf lim"
    using group_from_bound [OF a, of "[]"] g by auto
  moreover have "concat (plan_passes p) = [0..<length (plan_textures p)]"
    by (subst g) (simp add: group_from_concat)
  ultimately show ?thesis by simp
qed

text \<open>
  C8. An input with a value wider than \<open>channelMax\<close> is refused with a ConfigurationError;
  no plan is produced for it.
\<close>

theorem plan_rejects_wide_value:
  assumes "w \<in> set vals" and "channelMaxOf lim < w"
  shows "plan vals ders lim = Inl ConfigurationError"
proof -
  from assms have "\<not> list_all (\<lambda>w. w \<le> channelMaxOf lim) vals"
    unfolding list_all_iff using not_le by blast
  then show ?thesis by (simp add: plan_def config_ok_def)
qed

lemma exPlan_eq: "plan exValues exDerives exLimits = Inr exPlan"
  by code_simp

theorem plan_samples_deduplicated_witness:
  "plan exValues exDerives exLimits = Inr exPlan
   \<and> plan_passes exPlan ! 0 = [0, 1]
   \<and> plan_samples exPlan ! 0 = [(0, 1), (1, 1), (0, 0)]
   \<and> distinct (plan_samples exPlan ! 0)
   \<and> map fst (plan_reads exPlan ! 0) = passValues (plan_textures exPlan) (plan_passes exPlan ! 0)"
proof -
  have i: "0 < length (plan_passes exPlan)" by (simp add: exPlan_def)
  show ?thesis
    using plan_samples_deduplicated [OF exPlan_eq i] exPlan_eq
    by (simp add: exPlan_def)
qed

theorem plan_passes_bounded_partition_witness:
  "plan exValues exDerives exLimits = Inr exPlan
   \<and> attachMaxOf exLimits = 4
   \<and> plan_passes exPlan = [[0, 1]]
   \<and> concat (plan_passes exPlan) = [0..<length (plan_textures exPlan)]"
  using plan_passes_bounded_partition [OF exPlan_eq] exPlan_eq
  by (simp add: exPlan_def exLimits_def attachMaxOf_def)

theorem plan_rejects_wide_value_witness:
  "(5::nat) \<in> set [5] \<and> channelMaxOf (defLimits\<lparr>channelMax := Some 4\<rparr>) < 5
   \<and> plan [5] [] (defLimits\<lparr>channelMax := Some 4\<rparr>) = Inl ConfigurationError"
proof -
  have a: "(5::nat) \<in> set [5]" by simp
  have b: "channelMaxOf (defLimits\<lparr>channelMax := Some 4\<rparr>) < 5"
    by (simp add: channelMaxOf_def defLimits_def)
  show ?thesis
    using plan_rejects_wide_value [OF a b, of "[]"] a b by simp
qed

lemma plan_limits_cong:
  assumes "channelMaxOf l = channelMaxOf l'" and "channelMinOf l = channelMinOf l'"
    and "attachMaxOf l = attachMaxOf l'" and "packed l = packed l'"
  shows "plan vals ders l = plan vals ders l'"
  unfolding plan_def config_ok_def assms by (rule refl)

text \<open>
  C6, as amended. When the caller of \<open>gpgpu\<close> omits \<open>buffersMax\<close>, planning runs with the
  platform's \<open>maxDrawbuffers\<close> as the limit; only when that is absent too does the limit
  default to 1 (\<open>buffersMaxDef\<close>).
\<close>

theorem gpgpu_buffersMax_default:
  assumes "attachMax lim = None"
  shows "gpgpu_plan maxDrawbuffers vals ders lim =
      plan vals ders (lim\<lparr>attachMax :=
        Some (case maxDrawbuffers of None \<Rightarrow> buffersMaxDef | Some m \<Rightarrow> m)\<rparr>)"
  unfolding gpgpu_plan_def
  by (rule plan_limits_cong)
    (simp_all add: assms gpgpu_buffersMax_def channelMaxOf_def channelMinOf_def attachMaxOf_def
      split: option.splits)

theorem gpgpu_buffersMax_default_witness:
  "attachMax defLimits = None
   \<and> gpgpu_plan (Some 4) [4, 4] [] defLimits = plan [4, 4] [] (defLimits\<lparr>attachMax := Some 4\<rparr>)"
proof -
  have a: "attachMax defLimits = None" by (simp add: defLimits_def)
  show ?thesis
    using gpgpu_buffersMax_default [OF a, of "Some 4" "[4, 4]" "[]"] a by simp
qed

text \<open>
  C6 as stated fails: with \<open>maxDrawbuffers = 4\<close> and no \<open>buffersMax\<close>, two textures are
  planned into one pass, while a limit of 1 gives two passes.
\<close>

theorem gpgpu_buffersMax_counterexample:
  "attachMax defLimits = None
   \<and> gpgpu_plan (Some 4) [4, 4] [] defLimits
       \<noteq> plan [4, 4] [] (defLimits\<lparr>attachMax := Some 1\<rparr>)
   \<and> map_sum id plan_passes (gpgpu_plan (Some 4) [4, 4] [] defLimits) = Inr [[0, 1]]
   \<and> map_sum id plan_passes (plan [4, 4] [] (defLimits\<lparr>attachMax := Some 1\<rparr>)) = Inr [[0], [1]]"
proof -
  have a: "map_sum id plan_passes (gpgpu_plan (Some 4) [4, 4] [] defLimits) = Inr [[0, 1]]"
    by code_simp
  have b: "map_sum id plan_passes (plan [4, 4] [] (defLimits\<lparr>attachMax := Some 1\<rparr>)) = Inr [[0], [1]]"
    by code_simp
  have "gpgpu_plan (Some 4) [4, 4] [] defLimits \<noteq> plan [4, 4] [] (defLimits\<lparr>attachMax := Some 1\<rparr>)"
    using a b by auto
  then show ?thesis using a b by (simp add: defLimits_def)
qed

section \<open>Properties of the state setup\<close>

lemma fold_js_add:
  "\<forall>v\<in>set tex. v < length vals \<Longrightarrow>
   fold (\<lambda>v sum. js_add sum (nth_opt vals v)) tex (Some a) = Some (a + sum_list (map (\<lambda>v. vals ! v) tex))"
  by (induction tex arbitrary: a) (simp_all add: js_add_def nth_opt_def)

lemma textureWidth_wf:
  "\<forall>v\<in>set tex. v < length vals \<Longrightarrow> textureWidth vals tex = Some (packedWidth vals tex)"
  by (simp add: textureWidth_def packedWidth_def fold_js_add)

lemma passChannels_wf:
  "\<forall>t\<in>set pass. t < length (textures m) \<and> (\<forall>v\<in>set (textures m ! t). v < length (values_m m)) \<Longrightarrow>
   passChannels m pass (Some mn) = Inr (Some (fold max (widths m pass) mn))"
proof (induction pass arbitrary: mn)
  case Nil
  then show ?case by (simp add: widths_def)
next
  case (Cons t ts)
  have w: "textureWidth (values_m m) (textures m ! t) = Some (packedWidth (values_m m) (textures m ! t))"
    using Cons.prems by (simp add: textureWidth_wf)
  have "passChannels m ts (Some (max mn (packedWidth (values_m m) (textures m ! t)))) =
      Inr (Some (fold max (widths m ts) (max mn (packedWidth (values_m m) (textures m ! t)))))"
    using Cons.prems by (intro Cons.IH) simp
  then show ?case
    using Cons.prems w by (simp add: nth_opt_def js_max_def widths_def max.commute)
qed

lemma wf_maps_pass:
  "wf_maps m \<Longrightarrow> p \<in> set (passes m) \<Longrightarrow>
   \<forall>t\<in>set p. t < length (textures m) \<and> (\<forall>v\<in>set (textures m ! t). v < length (values_m m))"
  by (auto simp: wf_maps_def list_all_iff)

lemma mergeChannelsFrom_wf:
  "\<forall>p\<in>set ps. \<forall>t\<in>set p. t < length (textures m) \<and> (\<forall>v\<in>set (textures m ! t). v < length (values_m m)) \<Longrightarrow>
   mergeChannelsFrom m ps (Some mn) = Inr (Some (fold max (widths m (concat ps)) mn))"
proof (induction ps arbitrary: mn)
  case Nil
  then show ?case by (simp add: widths_def)
next
  case (Cons p ps)
  have "passChannels m p (Some mn) = Inr (Some (fold max (widths m p) mn))"
    using Cons.prems by (intro passChannels_wf) simp
  moreover have "mergeChannelsFrom m ps (Some (fold max (widths m p) mn)) =
      Inr (Some (fold max (widths m (concat ps)) (fold max (widths m p) mn)))"
    using Cons.prems by (intro Cons.IH) simp
  ultimately show ?case by (simp add: widths_def)
qed

lemma fold_max_Max: "fold max xs (a::nat) = Max (insert a (set xs))"
  using Max.set_eq_fold [of a xs] by simp

lemma fold_max_props:
  "(a::nat) \<le> fold max xs a" "\<forall>x\<in>set xs. x \<le> fold max xs a"
  "fold max xs a = a \<or> fold max xs a \<in> set xs"
proof -
  have f: "finite (insert a (set xs))" by simp
  show "a \<le> fold max xs a" unfolding fold_max_Max by (rule Max_ge [OF f]) simp
  show "\<forall>x\<in>set xs. x \<le> fold max xs a" unfolding fold_max_Max using Max_ge [OF f] by simp
  have "Max (insert a (set xs)) \<in> insert a (set xs)" by (rule Max_in [OF f]) simp
  then show "fold max xs a = a \<or> fold max xs a \<in> set xs" unfolding fold_max_Max by simp
qed

lemma addTexture_tex_ok:
  assumes inv: "\<forall>s i ti. to_textures g (s, i) = Some ti \<longrightarrow> tex_ok m mc cmin i ti"
    and p: "pass < length (passes m)" and i: "index \<in> set (passes m ! pass)"
    and c: "(case mc of Some ch \<Rightarrow> channels = ch
             | None \<Rightarrow> passChannels m (passes m ! pass) (Some cmin) = Inr channels)"
  shows "\<forall>s i ti. to_textures (fst (addTexture api m channels step pass index k (g, color))) (s, i) = Some ti
           \<longrightarrow> tex_ok m mc cmin i ti"
  using inv p i c
  by (auto simp: addTexture_def Let_def tex_ok_def split: option.splits if_splits)

lemma addTextures_tex_ok:
  assumes "\<forall>s i ti. to_textures (fst s0) (s, i) = Some ti \<longrightarrow> tex_ok m mc cmin i ti"
    and "pass < length (passes m)" and "set rest \<subseteq> set (passes m ! pass)"
    and "(case mc of Some ch \<Rightarrow> channels = ch
             | None \<Rightarrow> passChannels m (passes m ! pass) (Some cmin) = Inr channels)"
  shows "\<forall>s i ti. to_textures (fst (addTextures api m channels step pass k rest s0)) (s, i) = Some ti
           \<longrightarrow> tex_ok m mc cmin i ti"
  using assms
proof (induction rest arbitrary: s0 k)
  case Nil
  then show ?case by simp
next
  case (Cons index rest)
  obtain g color where s0: "s0 = (g, color)" by (cases s0)
  have "\<forall>s i ti. to_textures (fst (addTexture api m channels step pass index k (g, color))) (s, i) = Some ti
           \<longrightarrow> tex_ok m mc cmin i ti"
    using Cons.prems by (intro addTexture_tex_ok) (simp_all add: s0)
  then show ?case
    using Cons.prems by (simp add: s0 Cons.IH)
qed

lemma update_same_upt: "c < k \<Longrightarrow> (map Some [0..<k])[c := Some c] = map Some [0..<k]"
  by (simp add: list_update_same_conv)

lemma addTexture_pool:
  assumes "pool_ok g color k ch" and "c \<le> k"
  shows "pool_ok (fst (addTexture True m ch step pass index c (g, color)))
           (snd (addTexture True m ch step pass index c (g, color))) (max k (Suc c)) ch"
proof (cases "c < k")
  case True
  then have m: "max k (Suc c) = k" by simp
  from True assms show ?thesis
    unfolding m
    by (auto simp: pool_ok_def addTexture_def Let_def nth_opt_def js_set_def update_same_upt)
next
  case False
  with assms have e: "c = k" by simp
  have m: "max k (Suc c) = Suc k" using e by simp
  let ?r = "addTexture True m ch step pass index k (g, color)"
  from assms have a: "color = map Some [0..<k]" "created g = replicate k ch" "size_textures g = k"
    and old: "\<And>s i ti. to_textures g (s, i) = Some ti \<Longrightarrow> \<exists>h<k. t_texture ti = Some h"
    by (auto simp: pool_ok_def)
  have 1: "snd ?r = map Some [0..<Suc k]"
    by (simp add: a addTexture_def Let_def nth_opt_def js_set_def)
  have 2: "created (fst ?r) = replicate (Suc k) ch"
    by (simp add: a addTexture_def Let_def nth_opt_def replicate_append_same)
  have 3: "size_textures (fst ?r) = Suc k"
    by (simp add: a addTexture_def Let_def nth_opt_def)
  have 4: "\<exists>h<Suc k. t_texture ti = Some h" if "to_textures (fst ?r) (s, i) = Some ti" for s i ti
  proof (cases "(s, i) = (step, index)")
    case True
    with that have "t_texture ti = Some k"
      by (auto simp: a addTexture_def Let_def nth_opt_def)
    then show ?thesis by blast
  next
    case False
    with that have "to_textures g (s, i) = Some ti"
      by (auto simp: a addTexture_def Let_def nth_opt_def split: if_splits)
    from old [OF this] show ?thesis using less_SucI by blast
  qed
  have m': "max k (Suc k) = Suc k" by simp
  show ?thesis
    unfolding e m' pool_ok_def using 1 2 3 4 by blast
qed

lemma addTextures_pool:
  assumes "pool_ok (fst s0) (snd s0) k ch" and "c \<le> k"
  shows "pool_ok (fst (addTextures True m ch step pass c rest s0))
           (snd (addTextures True m ch step pass c rest s0)) (max k (c + length rest)) ch"
  using assms
proof (induction rest arbitrary: s0 k c)
  case Nil
  then show ?case by (simp add: max_def)
next
  case (Cons index rest)
  obtain g color where s0: "s0 = (g, color)" by (cases s0)
  let ?s1 = "addTexture True m ch step pass index c (g, color)"
  have p1: "pool_ok (fst ?s1) (snd ?s1) (max k (Suc c)) ch"
    using Cons.prems by (intro addTexture_pool) (simp_all add: s0)
  have "pool_ok (fst (addTextures True m ch step pass (Suc c) rest ?s1))
           (snd (addTextures True m ch step pass (Suc c) rest ?s1))
           (max (max k (Suc c)) (Suc c + length rest)) ch"
    by (rule Cons.IH [OF p1]) simp
  moreover have "max (max k (Suc c)) (Suc c + length rest) = max k (c + length (index # rest))"
    by simp
  ultimately show ?case by (simp add: s0)
qed

lemma addPass_Inr:
  assumes "addPass api mrg m mc cmin step pass index g = Inr g'"
  shows "\<exists>channels.
      (case mc of Some ch \<Rightarrow> Inr ch | None \<Rightarrow> passChannels m pass (Some cmin)) = Inr channels
      \<and> to_textures g' =
          to_textures (fst (addTextures api m channels step index 0 pass
            (g, if mrg then poolOf g else [])))"
proof (cases "case mc of Some ch \<Rightarrow> Inr ch | None \<Rightarrow> passChannels m pass (Some cmin)")
  case (Inl e)
  with assms show ?thesis by (simp add: addPass_def)
next
  case (Inr channels)
  with assms have "to_textures g' =
      to_textures (fst (addTextures api m channels step index 0 pass
        (g, if mrg then poolOf g else [])))"
    by (cases mrg) (auto simp: addPass_def Let_def poolOf_def)
  with Inr show ?thesis by simp
qed

lemma addPass_tex_ok:
  assumes inv: "\<forall>s i ti. to_textures g (s, i) = Some ti \<longrightarrow> tex_ok m mc cmin i ti"
    and i: "index < length (passes m)" and p: "pass = passes m ! index"
    and r: "addPass api mrg m mc cmin step pass index g = Inr g'"
  shows "\<forall>s i ti. to_textures g' (s, i) = Some ti \<longrightarrow> tex_ok m mc cmin i ti"
proof -
  from addPass_Inr [OF r] obtain channels where
    c: "(case mc of Some ch \<Rightarrow> Inr ch | None \<Rightarrow> passChannels m pass (Some cmin)) = Inr channels"
    and e: "to_textures g' =
          to_textures (fst (addTextures api m channels step index 0 pass
            (g, if mrg then poolOf g else [])))"
    by blast
  have c': "(case mc of Some ch \<Rightarrow> channels = ch
             | None \<Rightarrow> passChannels m (passes m ! index) (Some cmin) = Inr channels)"
    using c p by (cases mc) simp_all
  have "\<forall>s i ti. to_textures (fst (addTextures api m channels step index 0 pass
            (g, if mrg then poolOf g else []))) (s, i) = Some ti
           \<longrightarrow> tex_ok m mc cmin i ti"
    using inv i p c' by (intro addTextures_tex_ok) simp_all
  then show ?thesis by (simp add: e)
qed

lemma addPasses_tex_ok:
  assumes "\<forall>s i ti. to_textures g (s, i) = Some ti \<longrightarrow> tex_ok m mc cmin i ti"
    and "index + length ps = length (passes m)" and "ps = drop index (passes m)"
    and "addPasses api mrg m mc cmin step index ps g = Inr g'"
  shows "\<forall>s i ti. to_textures g' (s, i) = Some ti \<longrightarrow> tex_ok m mc cmin i ti"
  using assms
proof (induction ps arbitrary: index g)
  case Nil
  then show ?case by simp
next
  case (Cons pass ps)
  from Cons.prems(4) obtain g1 where
    a: "addPass api mrg m mc cmin step pass index g = Inr g1"
    and b: "addPasses api mrg m mc cmin step (Suc index) ps g1 = Inr g'"
    by (auto split: sum.splits)
  have i: "index < length (passes m)" using Cons.prems(2) by simp
  have p: "pass = passes m ! index"
    using Cons.prems(3) i by (metis nth_via_drop)
  have d: "ps = drop (Suc index) (passes m)"
    using Cons.prems(3) by (metis drop_Suc list.sel(3) tl_drop)
  have "\<forall>s i ti. to_textures g1 (s, i) = Some ti \<longrightarrow> tex_ok m mc cmin i ti"
    by (rule addPass_tex_ok [OF Cons.prems(1) i p a])
  then show ?case
    using Cons.prems(2) d b by (intro Cons.IH [of g1 "Suc index"]) simp_all
qed

lemma addSteps_tex_ok:
  assumes "\<forall>s i ti. to_textures g (s, i) = Some ti \<longrightarrow> tex_ok m mc cmin i ti"
    and "addSteps api mrg m mc cmin ss g = Inr g'"
  shows "\<forall>s i ti. to_textures g' (s, i) = Some ti \<longrightarrow> tex_ok m mc cmin i ti"
  using assms
proof (induction ss arbitrary: g)
  case Nil
  then show ?case by simp
next
  case (Cons step ss)
  from Cons.prems(2) obtain g1 where
    a: "addPasses api mrg m mc cmin step 0 (passes m) g = Inr g1"
    and b: "addSteps api mrg m mc cmin ss g1 = Inr g'"
    by (auto split: sum.splits)
  have "\<forall>s i ti. to_textures g1 (s, i) = Some ti \<longrightarrow> tex_ok m mc cmin i ti"
    by (rule addPasses_tex_ok [OF Cons.prems(1) _ _ a]) simp_all
  then show ?case using b by (rule Cons.IH)
qed

lemma getState_Inr:
  assumes "getState api st = Inr g"
  shows "\<exists>mc g0. mergeChannels (merge st) (maps st) (channelsMinOf (maps st)) = Inr mc
      \<and> addSteps api (merge st) (maps st) mc (channelsMinOf (maps st)) [0..<steps st] gl_init = Inr g0
      \<and> g = (case mc of None \<Rightarrow> g0 | Some ch \<Rightarrow> addMerged api ch g0)"
proof (cases "mergeChannels (merge st) (maps st) (channelsMinOf (maps st))")
  case (Inl e)
  with assms show ?thesis by (simp add: getState_def)
next
  case mc: (Inr mc)
  show ?thesis
  proof (cases "addSteps api (merge st) (maps st) mc (channelsMinOf (maps st)) [0..<steps st] gl_init")
    case (Inl e)
    with assms mc show ?thesis by (simp add: getState_def)
  next
    case (Inr g0)
    with assms mc show ?thesis by (cases mc) (simp_all add: getState_def)
  qed
qed

lemma getState_tex_ok:
  assumes "getState api st = Inr g" and "to_textures g (s, i) = Some ti"
  shows "\<exists>mc. mergeChannels (merge st) (maps st) (channelsMinOf (maps st)) = Inr mc
           \<and> tex_ok (maps st) mc (channelsMinOf (maps st)) i ti"
proof -
  from getState_Inr [OF assms(1)] obtain mc g0 where
    mc: "mergeChannels (merge st) (maps st) (channelsMinOf (maps st)) = Inr mc"
    and g0: "addSteps api (merge st) (maps st) mc (channelsMinOf (maps st)) [0..<steps st] gl_init = Inr g0"
    and g: "g = (case mc of None \<Rightarrow> g0 | Some ch \<Rightarrow> addMerged api ch g0)"
    by blast
  have t: "to_textures g = to_textures g0"
    unfolding g by (cases mc) (simp_all add: addMerged_def)
  have "\<forall>s i ti. to_textures g0 (s, i) = Some ti \<longrightarrow> tex_ok (maps st) mc (channelsMinOf (maps st)) i ti"
    by (rule addSteps_tex_ok [OF _ g0]) (simp add: gl_init_def)
  with assms(2) t mc show ?thesis by simp
qed

lemma pool_ok_cong:
  "pool_ok g color k ch \<Longrightarrow> created g' = created g \<Longrightarrow> size_textures g' = size_textures g \<Longrightarrow>
   to_textures g' = to_textures g \<Longrightarrow> pool_ok g' color k ch"
  by (simp add: pool_ok_def)

lemma addPass_pool:
  assumes "pool_ok g (poolOf g) k ch"
  shows "\<exists>g'. addPass True True m (Some ch) cmin step pass index g = Inr g'
           \<and> pool_ok g' (poolOf g') (max k (length pass)) ch"
proof -
  let ?r = "addTextures True m ch step index 0 pass (g, poolOf g)"
  let ?g1 = "(fst ?r)\<lparr>colorPool := Some (snd ?r)\<rparr>"
  let ?g' = "?g1\<lparr>size_framebuffers := Suc (size_framebuffers ?g1),
                 size_passes := Suc (size_passes ?g1),
                 to_passes := (to_passes ?g1)((step, index) \<mapsto>
                   \<lparr>p_color = snd ?r, p_entry = size_framebuffers ?g1, p_map = pass,
                    p_pass = size_passes ?g1, p_step = step, p_index = index\<rparr>)\<rparr>"
  have e: "addPass True True m (Some ch) cmin step pass index g = Inr ?g'"
    by (simp add: addPass_def Let_def poolOf_def)
  have "pool_ok (fst ?r) (snd ?r) (max k (0 + length pass)) ch"
    using assms by (intro addTextures_pool) simp_all
  then have "pool_ok (fst ?r) (snd ?r) (max k (length pass)) ch" by simp
  then have "pool_ok ?g' (snd ?r) (max k (length pass)) ch"
    by (rule pool_ok_cong) simp_all
  moreover have "poolOf ?g' = snd ?r" by (simp add: poolOf_def)
  ultimately show ?thesis using e by simp
qed

lemma addPasses_pool:
  assumes "pool_ok g (poolOf g) k ch"
  shows "\<exists>g'. addPasses True True m (Some ch) cmin step index ps g = Inr g'
           \<and> pool_ok g' (poolOf g') (fold max (map length ps) k) ch"
  using assms
proof (induction ps arbitrary: g k index)
  case Nil
  then show ?case by simp
next
  case (Cons pass ps)
  from addPass_pool [OF Cons.prems, of m cmin step pass index] obtain g1 where
    a: "addPass True True m (Some ch) cmin step pass index g = Inr g1"
    and b: "pool_ok g1 (poolOf g1) (max k (length pass)) ch" by blast
  from Cons.IH [OF b, of "Suc index"] obtain g' where
    c: "addPasses True True m (Some ch) cmin step (Suc index) ps g1 = Inr g'"
    and d: "pool_ok g' (poolOf g') (fold max (map length ps) (max k (length pass))) ch" by blast
  show ?case using a c d by (simp add: max.commute)
qed

lemma fold_max_start: "fold max xs (k::nat) = max k (fold max xs 0)"
proof (induction xs arbitrary: k)
  case Nil
  then show ?case by simp
next
  case (Cons x xs)
  have a: "fold max (x # xs) k = max (max x k) (fold max xs 0)"
    using Cons.IH [of "max x k"] by simp
  have b: "fold max (x # xs) 0 = max x (fold max xs 0)"
    using Cons.IH [of x] by simp
  show ?case unfolding a b by (simp add: max.assoc max.left_commute max.commute)
qed

lemma addSteps_pool:
  assumes "pool_ok g (poolOf g) k ch"
  shows "\<exists>g'. addSteps True True m (Some ch) cmin ss g = Inr g'
           \<and> pool_ok g' (poolOf g') (if ss = [] then k else max k (maxPassLen (passes m))) ch"
  using assms
proof (induction ss arbitrary: g k)
  case Nil
  then show ?case by simp
next
  case (Cons step ss)
  from addPasses_pool [OF Cons.prems, of m cmin step 0 "passes m"] obtain g1 where
    a: "addPasses True True m (Some ch) cmin step 0 (passes m) g = Inr g1"
    and b: "pool_ok g1 (poolOf g1) (fold max (map length (passes m)) k) ch" by blast
  have k1: "fold max (map length (passes m)) k = max k (maxPassLen (passes m))"
    unfolding maxPassLen_def by (rule fold_max_start)
  from Cons.IH [OF b] obtain g' where
    c: "addSteps True True m (Some ch) cmin ss g1 = Inr g'"
    and d: "pool_ok g' (poolOf g')
        (if ss = [] then fold max (map length (passes m)) k
         else max (fold max (map length (passes m)) k) (maxPassLen (passes m))) ch" by blast
  have "(if ss = [] then fold max (map length (passes m)) k
         else max (fold max (map length (passes m)) k) (maxPassLen (passes m)))
        = max k (maxPassLen (passes m))"
    by (simp add: k1)
  with d have "pool_ok g' (poolOf g') (max k (maxPassLen (passes m))) ch" by simp
  with a c show ?case by simp
qed

lemma pool_ok_init: "pool_ok gl_init (poolOf gl_init) 0 ch"
  by (simp add: pool_ok_def gl_init_def poolOf_def)

lemma mergeChannels_wf:
  assumes "wf_maps m"
  shows "mergeChannels True m cmin = Inr (Some (Some (fold max (widths m (concat (passes m))) cmin)))"
proof -
  have "mergeChannelsFrom m (passes m) (Some cmin) =
      Inr (Some (fold max (widths m (concat (passes m))) cmin))"
    using wf_maps_pass [OF assms] by (intro mergeChannelsFrom_wf) blast
  then show ?thesis by (simp add: mergeChannels_def)
qed

lemma narrow_wf: "wf_maps (maps narrowState)"
  by code_simp

lemma narrow_channels: "channelsAt (getState True narrowState) 0 0 = Some (Some 3)"
  by code_simp

lemma narrow_width:
  "packedWidth (values_m (maps narrowState)) (textures (maps narrowState) ! 0) = 1"
  by code_simp

lemma narrow_min: "channelsMinOf (maps narrowState) = 1"
  by code_simp

lemma narrow_maxPassLen: "maxPassLen (passes (maps narrowState)) = 1"
  by code_simp



lemma set_widths: "set (widths m ts) = (\<lambda>t. packedWidth (values_m m) (textures m ! t)) ` set ts"
  by (simp add: widths_def)

text \<open>
  C2, as amended. For maps whose indexes are in range, every attachment that \<open>getState\<close>
  records in \<open>to.textures\<close> has as its channel count the least number that is at least
  \<open>channelsMin\<close> and at least the packed width of every texture of its pass (of every pass,
  when merging): it is at least \<open>channelsMin\<close>, at least the packed width of each of those
  textures, its own among them, and it is \<open>channelsMin\<close> or one of those widths.
\<close>

theorem getState_channels_shared:
  assumes wf: "wf_maps (maps st)" and g: "getState api st = Inr g"
    and ti: "to_textures g (s, i) = Some ti"
  shows "\<exists>ch. t_channels ti = Some ch
    \<and> i \<in> set (sharing st ti)
    \<and> channelsMinOf (maps st) \<le> ch
    \<and> (\<forall>t\<in>set (sharing st ti). packedWidth (values_m (maps st)) (textures (maps st) ! t) \<le> ch)
    \<and> (ch = channelsMinOf (maps st)
        \<or> (\<exists>t\<in>set (sharing st ti). ch = packedWidth (values_m (maps st)) (textures (maps st) ! t)))"
proof -
  let ?m = "maps st" and ?cmin = "channelsMinOf (maps st)"
  from getState_tex_ok [OF g ti] obtain mc where
    mc: "mergeChannels (merge st) ?m ?cmin = Inr mc" and ok: "tex_ok ?m mc ?cmin i ti" by blast
  from ok have p: "t_pass ti < length (passes ?m)" and ip: "i \<in> set (passes ?m ! t_pass ti)"
    by (simp_all add: tex_ok_def)
  have pin: "passes ?m ! t_pass ti \<in> set (passes ?m)" using p by simp
  define ch where "ch = fold max (widths ?m (sharing st ti)) ?cmin"
  have c: "t_channels ti = Some ch"
  proof (cases "merge st")
    case True
    with mc mergeChannels_wf [OF wf, of ?cmin]
    have "mc = Some (Some (fold max (widths ?m (concat (passes ?m))) ?cmin))" by simp
    with ok True show ?thesis by (simp add: tex_ok_def ch_def sharing_def)
  next
    case False
    with mc have "mc = None" by (simp add: mergeChannels_def)
    with ok have "passChannels ?m (passes ?m ! t_pass ti) (Some ?cmin) = Inr (t_channels ti)"
      by (simp add: tex_ok_def)
    moreover have "passChannels ?m (passes ?m ! t_pass ti) (Some ?cmin) =
        Inr (Some (fold max (widths ?m (passes ?m ! t_pass ti)) ?cmin))"
      using wf_maps_pass [OF wf pin] by (intro passChannels_wf) blast
    ultimately show ?thesis using False by (simp add: ch_def sharing_def)
  qed
  have i: "i \<in> set (sharing st ti)"
    using ip pin by (auto simp: sharing_def)
  note f = fold_max_props [where a = ?cmin and xs = "widths ?m (sharing st ti)", folded ch_def, unfolded set_widths]
  show ?thesis using c i f by blast
qed



theorem getState_channels_shared_witness:
  "wf_maps (maps narrowState)
   \<and> (\<exists>g ti. getState True narrowState = Inr g \<and> to_textures g (0, 0) = Some ti
        \<and> t_channels ti = Some 3 \<and> 0 \<in> set (sharing narrowState ti)
        \<and> channelsMinOf (maps narrowState) \<le> 3)"
proof -
  from narrow_channels obtain g ti where g: "getState True narrowState = Inr g"
    and ti: "to_textures g (0, 0) = Some ti" and c: "t_channels ti = Some 3"
    by (auto simp: channelsAt_def split: sum.splits)
  from getState_channels_shared [OF narrow_wf g ti] c
  have "0 \<in> set (sharing narrowState ti) \<and> channelsMinOf (maps narrowState) \<le> 3"
    by auto
  with g ti c narrow_wf show ?thesis by blast
qed
text \<open>
  C2 as stated fails: with \<open>channelsMin = 1\<close> and values of widths 1 and 3 in two textures,
  the attachment of the first texture has 3 channels, though its packed width is 1.
\<close>

theorem getState_channels_counterexample:
  "wf_maps (maps narrowState)
   \<and> channelsAt (getState True narrowState) 0 0 = Some (Some 3)
   \<and> packedWidth (values_m (maps narrowState)) (textures (maps narrowState) ! 0) = 1
   \<and> channelsMinOf (maps narrowState) = 1
   \<and> channelsAt (getState True narrowState) 0 0 \<noteq>
       Some (Some (max (packedWidth (values_m (maps narrowState)) (textures (maps narrowState) ! 0))
                       (channelsMinOf (maps narrowState))))"
  using narrow_wf narrow_channels narrow_width narrow_min by simp


text \<open>
  C10, as amended. When merging, with \<open>api.texture\<close> given and maps whose indexes are in
  range, \<open>getState\<close> succeeds and makes one texture more than the largest pass has
  attachments (one texture in all when there is no step): the pool \<open>colorPool\<close>, as large as
  the largest pass, and after it the merged texture. Every attachment recorded for any pass
  of any step is a texture of the pool, and every texture made and every attachment recorded
  has the same channel count, the maximum packed width over the textures of all passes,
  floored at \<open>channelsMin\<close>.
\<close>

theorem getState_merge_textures:
  assumes wf: "wf_maps (maps st)" and mrg: "merge st"
  shows "\<exists>g n mi. getState True st = Inr g
    \<and> n = (if steps st = 0 then 0 else maxPassLen (passes (maps st)))
    \<and> length (created g) = Suc n
    \<and> size_textures g = Suc n
    \<and> poolOf g = map Some [0..<n]
    \<and> to_merge_all g = Some mi \<and> m_texture mi = Some n
    \<and> (\<forall>ch\<in>set (created g).
          ch = Some (fold max (widths (maps st) (concat (passes (maps st)))) (channelsMinOf (maps st))))
    \<and> (\<forall>s i ti. to_textures g (s, i) = Some ti \<longrightarrow>
          (\<exists>h<n. t_texture ti = Some h)
          \<and> t_channels ti =
              Some (fold max (widths (maps st) (concat (passes (maps st)))) (channelsMinOf (maps st))))"
proof -
  let ?m = "maps st" and ?cmin = "channelsMinOf (maps st)"
  define n where "n = (if steps st = 0 then 0 else maxPassLen (passes ?m))"
  define ch where "ch = Some (fold max (widths ?m (concat (passes ?m))) ?cmin)"
  have mc: "mergeChannels (merge st) ?m ?cmin = Inr (Some ch)"
    using mergeChannels_wf [OF wf, of ?cmin] mrg by (simp add: ch_def)
  have k: "(if [0..<steps st] = [] then 0 else max 0 (maxPassLen (passes ?m))) = n"
    by (simp add: n_def)
  from addSteps_pool [OF pool_ok_init, where ch = ch and m = ?m and cmin = ?cmin
      and ss = "[0..<steps st]"] obtain gf where
    gf: "addSteps True True ?m (Some ch) ?cmin [0..<steps st] gl_init = Inr gf"
    and pool: "pool_ok gf (poolOf gf) n ch" by (auto simp only: k)
  define g where "g = addMerged True ch gf"
  define mi :: merge_info where
    "mi = \<lparr>m_channels = ch, m_texture = Some (length (created gf)), m_entry = size_textures gf\<rparr>"
  have full: "getState True st = Inr g"
    using mc gf mrg by (simp add: getState_def g_def)
  from pool have 1: "poolOf gf = map Some [0..<n]" and 2: "created gf = replicate n ch"
    and sz: "size_textures gf = n"
    and 3: "\<And>s i ti. to_textures gf (s, i) = Some ti \<Longrightarrow> \<exists>h<n. t_texture ti = Some h"
    by (auto simp: pool_ok_def)
  have 4: "created g = replicate (Suc n) ch"
    by (simp add: g_def addMerged_def 2 replicate_append_same)
  have t: "to_textures g = to_textures gf" by (simp add: g_def addMerged_def)
  have 5: "t_channels ti = ch" if "to_textures g (s, i) = Some ti" for s i ti
  proof -
    from getState_tex_ok [OF full that] mc have "tex_ok ?m (Some ch) ?cmin i ti" by simp
    then show ?thesis by (simp add: tex_ok_def)
  qed
  have 6: "\<forall>c\<in>set (created g). c = ch" unfolding 4 by simp
  have 7: "size_textures g = Suc n" by (simp add: g_def addMerged_def sz)
  have 8: "length (created g) = Suc n" by (simp add: 4)
  have 9: "\<forall>s i ti. to_textures g (s, i) = Some ti \<longrightarrow>
      (\<exists>h<n. t_texture ti = Some h) \<and> t_channels ti = ch"
    using 3 5 unfolding t by blast
  have 10: "poolOf g = map Some [0..<n]"
    using 1 by (simp add: g_def addMerged_def poolOf_def)
  have 11: "to_merge_all g = Some mi" by (simp add: g_def addMerged_def mi_def)
  have 12: "m_texture mi = Some n" by (simp add: mi_def 2)
  have "getState True st = Inr g
    \<and> n = (if steps st = 0 then 0 else maxPassLen (passes (maps st)))
    \<and> length (created g) = Suc n \<and> size_textures g = Suc n
    \<and> poolOf g = map Some [0..<n]
    \<and> to_merge_all g = Some mi \<and> m_texture mi = Some n
    \<and> (\<forall>c\<in>set (created g). c = ch)
    \<and> (\<forall>s i ti. to_textures g (s, i) = Some ti \<longrightarrow>
          (\<exists>h<n. t_texture ti = Some h) \<and> t_channels ti = ch)"
    using full n_def 8 7 10 11 12 6 9 by (intro conjI)
  then show ?thesis unfolding ch_def by (intro exI [of _ g] exI [of _ n] exI [of _ mi])
qed

lemma narrow_steps: "steps narrowState = 2" "merge narrowState"
  by (simp_all add: narrowState_def)

theorem getState_merge_textures_witness:
  "wf_maps (maps narrowState) \<and> merge narrowState
   \<and> (\<exists>g. getState True narrowState = Inr g \<and> length (created g) = 2
        \<and> size_textures g = 2 \<and> poolOf g = [Some 0])"
proof -
  from getState_merge_textures [OF narrow_wf narrow_steps(2)] obtain g n where
    "getState True narrowState = Inr g"
    "n = (if steps narrowState = 0 then 0 else maxPassLen (passes (maps narrowState)))"
    "length (created g) = Suc n" "size_textures g = Suc n" "poolOf g = map Some [0..<n]"
    by blast
  then have "getState True narrowState = Inr g \<and> length (created g) = 2
        \<and> size_textures g = 2 \<and> poolOf g = [Some 0]"
    by (simp add: narrow_maxPassLen narrow_steps)
  with narrow_wf narrow_steps(2) show ?thesis by blast
qed

lemma narrow_created:
  "(case getState True narrowState of
      Inl e \<Rightarrow> None
    | Inr g \<Rightarrow> Some (length (created g), size_textures g)) = Some (2, 2)"
  by code_simp

text \<open>
  C10 as stated fails: for two passes of one attachment each, merged, \<open>getState\<close> makes 2
  textures (\<open>to.size.textures\<close> is 2), while the largest pass has 1 attachment.
\<close>

theorem getState_merge_count_counterexample:
  "merge narrowState
   \<and> (\<exists>g. getState True narrowState = Inr g \<and> length (created g) = 2 \<and> size_textures g = 2)
   \<and> maxPassLen (passes (maps narrowState)) = 1"
proof -
  from narrow_created obtain g where
    "getState True narrowState = Inr g" "length (created g) = 2" "size_textures g = 2"
    by (cases "getState True narrowState") simp_all
  then show ?thesis using narrow_steps(2) narrow_maxPassLen by blast
qed

section \<open>Properties of the macros\<close>



lemma cached_error:
  assumes "fst (cached k v c) = Inl e"
  shows "snd (cached k v c) = c \<and> entries c k = None \<and> v = Inl e"
  using assms by (auto simp: cached_def split: option.splits sum.splits)



















lemma valuesTexture_slices:
  "valuesTexture n vals t tex (s, i) =
     (s @ concat (map2 (valuesLines n t) tex (channelSlices vals i tex)),
      fold (\<lambda>v j. js_add j (nth_opt vals v)) tex i)"
proof (induction tex arbitrary: s i)
  case Nil
  then show ?case by simp
next
  case (Cons v vs)
  show ?case by (simp add: Let_def Cons.IH valuesLines_def)
qed

lemma outputTexture_slices:
  "outputTexture n vals texture bnd tex (s, i) =
     (s @ concat (map2 (outputLines n texture bnd) tex (channelSlices vals i tex)),
      fold (\<lambda>v j. js_add j (nth_opt vals v)) tex i)"
proof (induction tex arbitrary: s i)
  case Nil
  then show ?case by simp
next
  case (Cons v vs)
  show ?case by (simp add: Let_def Cons.IH outputLines_def)
qed

lemma channelSlices_length: "length (channelSlices vals i tex) = length tex"
  by (induction tex arbitrary: i) simp_all

lemma packedWidth_Cons: "packedWidth vals (v # vs) = vals ! v + packedWidth vals vs"
  by (simp add: packedWidth_def)

lemma channelSlices_nth:
  assumes "\<forall>v\<in>set tex. v < length vals" and "k < length tex"
  shows "channelSlices vals (Some a) tex ! k =
    js_slice rgba (Some (a + packedWidth vals (take k tex)))
      (Some (a + packedWidth vals (take k tex) + vals ! (tex ! k)))"
  using assms
proof (induction tex arbitrary: a k)
  case Nil
  then show ?case by simp
next
  case (Cons v vs)
  have v: "nth_opt vals v = Some (vals ! v)" using Cons.prems(1) by (simp add: nth_opt_def)
  show ?case
  proof (cases k)
    case 0
    then show ?thesis by (simp add: v js_add_def packedWidth_def)
  next
    case (Suc j)
    with Cons.prems have j: "j < length vs" and w: "\<forall>v\<in>set vs. v < length vals" by simp_all
    from Cons.IH [OF w j, of "a + vals ! v"] Suc show ?thesis
      by (simp add: v js_add_def packedWidth_Cons add.assoc)
  qed
qed

lemma js_slice_fits:
  "off + w \<le> length s \<Longrightarrow> js_slice s (Some off) (Some (off + w)) = take w (drop off s)"
  by (simp add: js_slice_def Let_def min_def)

lemma packedWidth_take_le:
  assumes "k < length tex"
  shows "packedWidth vals (take k tex) + vals ! (tex ! k) \<le> packedWidth vals tex"
proof -
  have "tex = take k tex @ tex ! k # drop (Suc k) tex"
    using assms by (simp add: id_take_nth_drop)
  then have "packedWidth vals tex =
      packedWidth vals (take k tex) + (vals ! (tex ! k) + packedWidth vals (drop (Suc k) tex))"
    unfolding packedWidth_def by (metis map_append sum_list.append list.simps(9) sum_list.Cons)
  then show ?thesis by simp
qed

lemma map2_index:
  assumes "length ys = length xs"
  shows "map2 f xs ys = map (\<lambda>k. f (xs ! k) (ys ! k)) [0..<length xs]"
proof (rule nth_equalityI)
  show "length (map2 f xs ys) = length (map (\<lambda>k. f (xs ! k) (ys ! k)) [0..<length xs])"
    using assms by simp
next
  fix i assume "i < length (map2 f xs ys)"
  then show "map2 f xs ys ! i = map (\<lambda>k. f (xs ! k) (ys ! k)) [0..<length xs] ! i"
    using assms by simp
qed

lemma texture_slices:
  assumes "\<forall>v\<in>set tex. v < length vals" and "packedWidth vals tex \<le> length rgba"
  shows "map2 f tex (channelSlices vals (Some 0) tex) =
    map (\<lambda>k. f (tex ! k) (take (vals ! (tex ! k)) (drop (packedWidth vals (take k tex)) rgba)))
      [0..<length tex]"
proof -
  have "channelSlices vals (Some 0) tex ! k =
      take (vals ! (tex ! k)) (drop (packedWidth vals (take k tex)) rgba)"
    if k: "k < length tex" for k
  proof -
    have "packedWidth vals (take k tex) + vals ! (tex ! k) \<le> length rgba"
      using packedWidth_take_le [OF k, of vals] assms(2) by simp
    then show ?thesis
      using channelSlices_nth [OF assms(1) k, of 0] js_slice_fits by simp
  qed
  then show ?thesis
    unfolding map2_index [OF channelSlices_length] by simp
qed

lemma valuesTextures_index:
  "valuesTextures n vals t texs s =
    s @ concat (map (\<lambda>j. concat (map2 (valuesLines n (t + j)) (texs ! j)
                        (channelSlices vals (Some 0) (texs ! j)))) [0..<length texs])"
proof (induction texs arbitrary: t s)
  case Nil
  then show ?case by simp
next
  case (Cons tex texs)
  show ?case
    by (simp add: Cons.IH valuesTexture_slices map_upt_Suc del: upt_Suc)
qed

lemma outputPass_index:
  assumes "\<forall>t\<in>set pass. t < length (textures m)"
  shows "outputPass n m bnd pass s =
    Inr (s @ concat (map (\<lambda>b. concat (map2 (outputLines n (pass ! b) (bnd + b))
                             (textures m ! (pass ! b))
                             (channelSlices (values_m m) (Some 0) (textures m ! (pass ! b)))))
                      [0..<length pass]))"
  using assms
proof (induction pass arbitrary: bnd s)
  case Nil
  then show ?case by simp
next
  case (Cons t ts)
  then have t: "nth_opt (textures m) t = Some (textures m ! t)"
    and ts: "\<forall>t\<in>set ts. t < length (textures m)" by (simp_all add: nth_opt_def)
  show ?case
    by (simp add: t Cons.IH [OF ts] outputTexture_slices map_upt_Suc del: upt_Suc)
qed

text \<open>
  Claim C7, amended. For maps whose textures hold indexes of the values and pack at most as
  many channels as \<open>rgba\<close> has letters: the channels of the value at position \<open>k\<close> of a
  texture are the letters of \<open>rgba\<close> that start at the sum of the widths of the values
  before it in that texture and span its own width, the first value starting at offset 0.
  The text of \<open>macroValues\<close> starts with the texture and channels lines of every value of
  every texture, written with these channels; the text of \<open>macroOutput\<close> for a pass is the
  pass number followed by the bound, attach and output lines of every value of every texture
  of the pass, written with these channels.
\<close>

theorem macros_channels_by_prefix_widths:
  assumes idx: "\<forall>tex\<in>set (textures (maps st)). \<forall>v\<in>set tex. v < length (values_m (maps st))"
    and fit: "\<forall>tex\<in>set (textures (maps st)). packedWidth (values_m (maps st)) tex \<le> length rgba"
  shows "let vals = values_m (maps st); texs = textures (maps st); n = preOf st;
      channels = (\<lambda>tex k. take (vals ! (tex ! k)) (drop (packedWidth vals (take k tex)) rgba))
    in (\<forall>tex\<in>set texs. \<forall>k<length tex. length (channels tex k) = vals ! (tex ! k))
     \<and> (\<forall>tex\<in>set texs. 0 < length tex \<longrightarrow> channels tex 0 = take (vals ! (tex ! 0)) rgba)
     \<and> (hasMacros ''values'' on (macros st) = None \<longrightarrow> entries c (macroValues_key st) = None \<longrightarrow>
          (\<exists>rest. fst (macroValues st on c) =
            Inr (concat (map (\<lambda>t. concat (map (\<lambda>k.
                    valuesLines n t (texs ! t ! k) (channels (texs ! t) k))
                  [0..<length (texs ! t)])) [0..<length texs]) @ rest)))
     \<and> (\<forall>p pass. hasMacros ''output'' on (macros st) = None \<longrightarrow>
          entries c (macroOutput_key st) = None \<longrightarrow>
          passNow st = Some p \<longrightarrow> nth_opt (passes (maps st)) p = Some pass \<longrightarrow>
          (\<forall>t\<in>set pass. t < length texs) \<longrightarrow>
          fst (macroOutput st on c) =
            Inr (''#define '' @ n @ ''passNow '' @ show_nat p @ nl
              @ concat (map (\<lambda>b. concat (map (\<lambda>k.
                    outputLines n (pass ! b) b (texs ! (pass ! b) ! k) (channels (texs ! (pass ! b)) k))
                  [0..<length (texs ! (pass ! b))])) [0..<length pass])
              @ nl))"
proof -
  let ?vals = "values_m (maps st)" and ?texs = "textures (maps st)" and ?n = "preOf st"
  let ?ch = "\<lambda>tex k. take (?vals ! (tex ! k)) (drop (packedWidth ?vals (take k tex)) rgba)"
  have a: "length (?ch tex k) = ?vals ! (tex ! k)" if "tex \<in> set ?texs" "k < length tex" for tex k
  proof -
    have "packedWidth ?vals (take k tex) + ?vals ! (tex ! k) \<le> length rgba"
      using packedWidth_take_le [OF that(2), of ?vals] fit that(1) by fastforce
    then show ?thesis by simp
  qed
  have b: "?ch tex 0 = take (?vals ! (tex ! 0)) rgba" for tex
    by (simp add: packedWidth_def)
  have sl: "map2 f (?texs ! t) (channelSlices ?vals (Some 0) (?texs ! t)) =
      map (\<lambda>k. f (?texs ! t ! k) (?ch (?texs ! t) k)) [0..<length (?texs ! t)]"
    if "t < length ?texs" for t and f :: "nat \<Rightarrow> string \<Rightarrow> string"
  proof -
    from that have m: "?texs ! t \<in> set ?texs" by simp
    show ?thesis
      by (rule texture_slices) (use idx fit m in blast)+
  qed
  have v: "\<exists>rest. fst (macroValues st on c) =
      Inr (concat (map (\<lambda>t. concat (map (\<lambda>k.
              valuesLines ?n t (?texs ! t ! k) (?ch (?texs ! t) k))
            [0..<length (?texs ! t)])) [0..<length ?texs]) @ rest)"
    if h: "hasMacros ''values'' on (macros st) = None" and e: "entries c (macroValues_key st) = None"
  proof -
    have 1: "fst (macroValues st on c) = Inr (macroValues_text st)"
      using h e by (simp add: macroValues_def cached_def)
    have 2: "valuesTextures ?n ?vals 0 ?texs [] =
        concat (map (\<lambda>t. concat (map (\<lambda>k.
              valuesLines ?n t (?texs ! t ! k) (?ch (?texs ! t) k))
            [0..<length (?texs ! t)])) [0..<length ?texs])"
    proof -
      have vt: "valuesTextures ?n ?vals 0 ?texs [] =
          concat (map (\<lambda>t. concat (map2 (valuesLines ?n t) (?texs ! t)
                (channelSlices ?vals (Some 0) (?texs ! t)))) [0..<length ?texs])"
        by (simp add: valuesTextures_index)
      have eq: "map (\<lambda>t. concat (map2 (valuesLines ?n t) (?texs ! t)
                (channelSlices ?vals (Some 0) (?texs ! t)))) [0..<length ?texs] =
          map (\<lambda>t. concat (map (\<lambda>k.
              valuesLines ?n t (?texs ! t ! k) (?ch (?texs ! t) k))
            [0..<length (?texs ! t)])) [0..<length ?texs]"
        by (rule map_cong [OF refl]) (simp add: sl)
      show ?thesis unfolding vt eq by (rule refl)
    qed
    show ?thesis unfolding 1 macroValues_text_def Let_def 2 by (intro exI) (simp only: append_assoc)
  qed
  have o: "fst (macroOutput st on c) =
      Inr (''#define '' @ ?n @ ''passNow '' @ show_nat p @ nl
        @ concat (map (\<lambda>b. concat (map (\<lambda>k.
              outputLines ?n (pass ! b) b (?texs ! (pass ! b) ! k) (?ch (?texs ! (pass ! b)) k))
            [0..<length (?texs ! (pass ! b))])) [0..<length pass])
        @ nl)"
    if h: "hasMacros ''output'' on (macros st) = None"
      and e: "entries c (macroOutput_key st) = None"
      and p: "passNow st = Some p" and pass: "nth_opt (passes (maps st)) p = Some pass"
      and ts: "\<forall>t\<in>set pass. t < length ?texs" for p pass
  proof -
    have 2: "outputPass ?n (maps st) 0 pass [] =
        Inr (concat (map (\<lambda>b. concat (map (\<lambda>k.
              outputLines ?n (pass ! b) b (?texs ! (pass ! b) ! k) (?ch (?texs ! (pass ! b)) k))
            [0..<length (?texs ! (pass ! b))])) [0..<length pass]))"
    proof -
      have op: "outputPass ?n (maps st) 0 pass [] =
          Inr (concat (map (\<lambda>b. concat (map2 (outputLines ?n (pass ! b) b) (?texs ! (pass ! b))
                (channelSlices ?vals (Some 0) (?texs ! (pass ! b))))) [0..<length pass]))"
        by (simp add: outputPass_index [OF ts])
      have eq: "map (\<lambda>b. concat (map2 (outputLines ?n (pass ! b) b) (?texs ! (pass ! b))
                (channelSlices ?vals (Some 0) (?texs ! (pass ! b))))) [0..<length pass] =
          map (\<lambda>b. concat (map (\<lambda>k.
              outputLines ?n (pass ! b) b (?texs ! (pass ! b) ! k) (?ch (?texs ! (pass ! b)) k))
            [0..<length (?texs ! (pass ! b))])) [0..<length pass]"
        by (rule map_cong [OF refl]) (use ts in \<open>simp add: sl\<close>)
      show ?thesis unfolding op eq by (rule refl)
    qed
    have 1: "macroOutput_text st =
        Inr (''#define '' @ ?n @ ''passNow '' @ show_opt (passNow st) @ nl
          @ concat (map (\<lambda>b. concat (map (\<lambda>k.
              outputLines ?n (pass ! b) b (?texs ! (pass ! b) ! k) (?ch (?texs ! (pass ! b)) k))
            [0..<length (?texs ! (pass ! b))])) [0..<length pass]) @ nl)"
      unfolding macroOutput_text_def Let_def by (simp add: p pass 2)
    have 3: "show_opt (passNow st) = show_nat p" by (simp add: p show_opt_def)
    show ?thesis
      using h e by (simp add: macroOutput_def cached_def 1 3)
  qed
  show ?thesis unfolding Let_def using a b v o by blast
qed

lemma doc_values_channels:
  "concat (map (\<lambda>t. concat (map (\<lambda>k.
        valuesLines (preOf docState) t (textures (maps docState) ! t ! k)
          (take (values_m (maps docState) ! (textures (maps docState) ! t ! k)) (drop (packedWidth (values_m (maps docState)) (take k (textures (maps docState) ! t))) rgba)))
      [0..<length (textures (maps docState) ! t)])) [0..<length (textures (maps docState))]) =
    ''#define gpgpu_texture_1 0'' @ nl @ ''#define gpgpu_channels_1 rgba'' @ nl @ nl
    @ ''#define gpgpu_texture_0 1'' @ nl @ ''#define gpgpu_channels_0 rg'' @ nl @ nl
    @ ''#define gpgpu_texture_2 1'' @ nl @ ''#define gpgpu_channels_2 b'' @ nl @ nl"
  by code_simp

lemma doc_output_channels:
  "''#define '' @ preOf docState @ ''passNow '' @ show_nat 1 @ nl
    @ concat (map (\<lambda>b. concat (map (\<lambda>k.
        outputLines (preOf docState) ([1] ! b) b (textures (maps docState) ! ([1] ! b) ! k)
          (take (values_m (maps docState) ! (textures (maps docState) ! ([1] ! b) ! k)) (drop (packedWidth (values_m (maps docState)) (take k (textures (maps docState) ! ([1] ! b)))) rgba)))
      [0..<length (textures (maps docState) ! ([1] ! b))])) [0..<length [1]])
    @ nl =
    ''#define gpgpu_passNow 1'' @ nl @ nl @ ''#define gpgpu_bound_0 1'' @ nl
    @ ''#define gpgpu_attach_0 0'' @ nl
    @ ''#define gpgpu_output_0 gl_FragData[gpgpu_attach_0].rg'' @ nl @ nl
    @ ''#define gpgpu_bound_2 1'' @ nl @ ''#define gpgpu_attach_2 0'' @ nl
    @ ''#define gpgpu_output_2 gl_FragData[gpgpu_attach_2].b'' @ nl @ nl"
  by code_simp

theorem macros_channels_by_prefix_widths_witness:
  "list_all (list_all (\<lambda>v. v < length (values_m (maps docState)))) (textures (maps docState))
   \<and> list_all (\<lambda>tex. packedWidth (values_m (maps docState)) tex \<le> length rgba)
        (textures (maps docState))
   \<and> (\<exists>rest. fst (macroValues docState [] cache_empty) =
        Inr ((''#define gpgpu_texture_1 0'' @ nl @ ''#define gpgpu_channels_1 rgba'' @ nl @ nl
          @ ''#define gpgpu_texture_0 1'' @ nl @ ''#define gpgpu_channels_0 rg'' @ nl @ nl
          @ ''#define gpgpu_texture_2 1'' @ nl @ ''#define gpgpu_channels_2 b'' @ nl @ nl) @ rest))
   \<and> fst (macroOutput docState [] cache_empty) =
        Inr (''#define gpgpu_passNow 1'' @ nl @ nl @ ''#define gpgpu_bound_0 1'' @ nl
          @ ''#define gpgpu_attach_0 0'' @ nl
          @ ''#define gpgpu_output_0 gl_FragData[gpgpu_attach_0].rg'' @ nl @ nl
          @ ''#define gpgpu_bound_2 1'' @ nl @ ''#define gpgpu_attach_2 0'' @ nl
          @ ''#define gpgpu_output_2 gl_FragData[gpgpu_attach_2].b'' @ nl @ nl)"
proof -
  have i: "\<forall>tex\<in>set (textures (maps docState)). \<forall>v\<in>set tex. v < length (values_m (maps docState))"
    by (simp add: docState_def docMaps_def)
  have f: "\<forall>tex\<in>set (textures (maps docState)).
      packedWidth (values_m (maps docState)) tex \<le> length rgba"
    by (simp add: docState_def docMaps_def packedWidth_def rgba_def)
  have hv: "hasMacros ''values'' [] (macros docState) = None"
    and ho: "hasMacros ''output'' [] (macros docState) = None"
    by (simp_all add: docState_def)
  have ev: "entries cache_empty (macroValues_key docState) = None"
    and eo: "entries cache_empty (macroOutput_key docState) = None"
    by (simp_all add: cache_empty_def)
  have p: "passNow docState = Some 1" by (simp add: docState_def)
  have ps: "nth_opt (passes (maps docState)) 1 = Some [1]"
    by (simp add: docState_def docMaps_def nth_opt_def)
  have ts: "t < length (textures (maps docState))" if "t \<in> set [1]" for t
    using that by (simp add: docState_def docMaps_def)
  note T = macros_channels_by_prefix_widths [OF i f, of "[]" cache_empty, unfolded Let_def]
  have v: "\<exists>rest. fst (macroValues docState [] cache_empty) =
        Inr ((''#define gpgpu_texture_1 0'' @ nl @ ''#define gpgpu_channels_1 rgba'' @ nl @ nl
          @ ''#define gpgpu_texture_0 1'' @ nl @ ''#define gpgpu_channels_0 rg'' @ nl @ nl
          @ ''#define gpgpu_texture_2 1'' @ nl @ ''#define gpgpu_channels_2 b'' @ nl @ nl) @ rest)"
    using T [THEN conjunct2, THEN conjunct2, THEN conjunct1, rule_format, OF hv ev]
    unfolding doc_values_channels .
  have o: "fst (macroOutput docState [] cache_empty) =
        Inr (''#define gpgpu_passNow 1'' @ nl @ nl @ ''#define gpgpu_bound_0 1'' @ nl
          @ ''#define gpgpu_attach_0 0'' @ nl
          @ ''#define gpgpu_output_0 gl_FragData[gpgpu_attach_0].rg'' @ nl @ nl
          @ ''#define gpgpu_bound_2 1'' @ nl @ ''#define gpgpu_attach_2 0'' @ nl
          @ ''#define gpgpu_output_2 gl_FragData[gpgpu_attach_2].b'' @ nl @ nl)"
    using T [THEN conjunct2, THEN conjunct2, THEN conjunct2, rule_format, OF ho eo p ps ts]
    unfolding doc_output_channels .
  have i': "list_all (list_all (\<lambda>v. v < length (values_m (maps docState)))) (textures (maps docState))"
    using i unfolding list_all_iff .
  have f': "list_all (\<lambda>tex. packedWidth (values_m (maps docState)) tex \<le> length rgba)
        (textures (maps docState))"
    using f unfolding list_all_iff .
  from i' f' v o show ?thesis by (intro conjI)
qed

text \<open>
  Claim C7 as stated fails: two values of 3 channels in one texture. The second value starts
  at offset 3 and \<open>macroValues\<close> and \<open>macroOutput\<close> give it the one channel \<open>a\<close>, not 3
  channels, as \<open>rgba.slice(3, 6)\<close> is cut at the end of \<open>rgba\<close>.
\<close>

theorem macros_channels_clip_counterexample:
  "values_m (maps clipState) ! 1 = 3
   \<and> packedWidth (values_m (maps clipState)) (take 1 (textures (maps clipState) ! 0)) = 3
   \<and> fst (macroValues clipState [] cache_empty) =
        Inr (''#define gpgpu_texture_0 0'' @ nl @ ''#define gpgpu_channels_0 rgb'' @ nl @ nl
          @ ''#define gpgpu_texture_1 0'' @ nl @ ''#define gpgpu_channels_1 a'' @ nl @ nl
          @ ''#define gpgpu_textures 1'' @ nl @ ''#define gpgpu_passes 1'' @ nl
          @ ''#define gpgpu_stepsPast 1'' @ nl @ ''#define gpgpu_steps 2'' @ nl
          @ ''#define gpgpu_bound 1'' @ nl @ nl)
   \<and> fst (macroOutput clipState [] cache_empty) =
        Inr (''#define gpgpu_passNow 0'' @ nl @ nl @ ''#define gpgpu_bound_0 0'' @ nl
          @ ''#define gpgpu_attach_0 0'' @ nl
          @ ''#define gpgpu_output_0 gl_FragData[gpgpu_attach_0].rgb'' @ nl @ nl
          @ ''#define gpgpu_bound_1 0'' @ nl @ ''#define gpgpu_attach_1 0'' @ nl
          @ ''#define gpgpu_output_1 gl_FragData[gpgpu_attach_1].a'' @ nl @ nl)"
  by code_simp



text \<open>
  Claim C5, amended. The count of past steps that \<open>macroValues\<close> writes is the number
  of steps less the steps bound to outputs (\<open>boundDef\<close> when none is given); it is
  written with the two numbers it is computed from, and no derive enters it. This holds when
  no hook replaces the macros of the values and the cache holds no entry for the state.
\<close>

theorem macroValues_stepsPast:
  assumes "hasMacros ''values'' on (macros st) = None"
    and "entries c (macroValues_key st) = None"
  shows "\<exists>before. fst (macroValues st on c) =
    Inr (before
      @ ''#define '' @ preOf st @ ''stepsPast ''
      @ show_int (int (steps st) - int (case bound st of None \<Rightarrow> boundDef | Some b \<Rightarrow> b)) @ nl
      @ ''#define '' @ preOf st @ ''steps '' @ show_nat (steps st) @ nl
      @ ''#define '' @ preOf st @ ''bound ''
      @ show_nat (case bound st of None \<Rightarrow> boundDef | Some b \<Rightarrow> b) @ nl @ nl)"
proof -
  have "fst (macroValues st on c) = Inr (macroValues_text st)"
    using assms by (simp add: macroValues_def cached_def)
  then show ?thesis
    by (simp add: macroValues_text_def Let_def stepsPast_def boundOf_def
        append_eq_append_conv2 flip: append_assoc)
qed

lemma doc_shows: "show_int 2 = ''2''" "show_nat 3 = ''3''" "show_nat (Suc 0) = ''1''"
  by code_simp+

theorem macroValues_stepsPast_witness:
  "hasMacros ''values'' [] (macros docState) = None
   \<and> entries cache_empty (macroValues_key docState) = None
   \<and> (\<exists>before. fst (macroValues docState [] cache_empty) =
        Inr (before @ ''#define gpgpu_stepsPast 2'' @ nl @ ''#define gpgpu_steps 3'' @ nl
             @ ''#define gpgpu_bound 1'' @ nl @ nl))"
proof -
  have a: "hasMacros ''values'' [] (macros docState) = None" by (simp add: docState_def)
  have b: "entries cache_empty (macroValues_key docState) = None" by (simp add: cache_empty_def)
  have p: "preOf docState = ''gpgpu_''" "steps docState = 3" "bound docState = None"
    by (simp_all add: preOf_def docState_def preDef_def)
  from macroValues_stepsPast [OF a b]
  have "\<exists>before. fst (macroValues docState [] cache_empty) =
        Inr (before @ ''#define gpgpu_stepsPast 2'' @ nl @ ''#define gpgpu_steps 3'' @ nl
             @ ''#define gpgpu_bound 1'' @ nl @ nl)"
    by (simp add: p boundDef_def doc_shows)
  with a b show ?thesis by blast
qed

text \<open>
  Claim C5 as stated fails: for the documented example the largest step offset among the
  derives is 1, while the count of past steps of the state of 3 steps is 2.
\<close>

theorem macroValues_stepsPast_counterexample:
  "maxStepOffset exDerives = 1 \<and> stepsPast docState = 2
   \<and> stepsPast docState \<noteq> int (maxStepOffset exDerives)"
  by (simp add: maxStepOffset_def exDerives_def stepsPast_def docState_def boundOf_def boundDef_def)

end
